theory Spec2Isabelle
  imports Main "HOL-Library.Word"
begin

section \<open>The Paillier package: big integers, keys, encryption, decryption\<close>

text \<open>
  The package \<^verbatim>\<open>paillier\<close> works on \<^verbatim>\<open>*big.Int\<close> values and byte slices.
  A \<^verbatim>\<open>big.Int\<close> is an unbounded integer, here \<^typ>\<open>int\<close>; a byte slice is a
  list of 8-bit words. A pointer that the code itself can leave \<^verbatim>\<open>nil\<close> (the result of
  \<^verbatim>\<open>ModInverse\<close> and of \<^verbatim>\<open>Exp\<close>) is an \<^typ>\<open>int option\<close>. Every run-time panic of the
  source (a division by zero inside \<^verbatim>\<open>math/big\<close>, a method called on a \<^verbatim>\<open>nil\<close>
  pointer) and every returned error is a value of type \<open>failure\<close>.
\<close>

type_synonym byte = "8 word"

datatype failure =
    ErrMessageTooLong
  | RandomSourceError nat
  | PanicDivisionByZero
  | PanicNilDereference
  | PanicNonPositiveBound

definition bind :: "failure + 'a \<Rightarrow> ('a \<Rightarrow> failure + 'b) \<Rightarrow> failure + 'b" where
  "bind x f = (case x of Inl e \<Rightarrow> Inl e | Inr v \<Rightarrow> f v)"

definition deref :: "int option \<Rightarrow> failure + int" where
  "deref x = (case x of None \<Rightarrow> Inl PanicNilDereference | Some v \<Rightarrow> Inr v)"

subsection \<open>The operations of \<^verbatim>\<open>math/big\<close> that the package calls\<close>

text \<open>\<^verbatim>\<open>SetBytes\<close> reads a big-endian unsigned integer; the empty slice is zero.\<close>

definition SetBytes :: "byte list \<Rightarrow> int" where
  "SetBytes buf = foldl (\<lambda>acc b. acc * 256 + uint b) 0 buf"

text \<open>\<^verbatim>\<open>Bytes\<close> is the big-endian encoding of the absolute value, without leading zeros.\<close>

fun nat_bytes :: "nat \<Rightarrow> byte list" where
  "nat_bytes n = (if n = 0 then [] else nat_bytes (n div 256) @ [of_nat (n mod 256)])"

declare nat_bytes.simps [simp del]

definition Bytes :: "int \<Rightarrow> byte list" where
  "Bytes x = nat_bytes (nat \<bar>x\<bar>)"

definition Cmp :: "int \<Rightarrow> int \<Rightarrow> int" where
  "Cmp x y = (if x < y then - 1 else if x = y then 0 else 1)"

text \<open>
  \<^verbatim>\<open>Mod\<close> and \<^verbatim>\<open>Div\<close> are Euclidean: the remainder lies in \<open>[0, |y|)\<close>; both panic on
  a zero divisor.
\<close>

definition Mod :: "int \<Rightarrow> int \<Rightarrow> failure + int" where
  "Mod x y = (if y = 0 then Inl PanicDivisionByZero else Inr (x mod \<bar>y\<bar>))"

definition Div :: "int \<Rightarrow> int \<Rightarrow> failure + int" where
  "Div x y =
     (if y = 0 then Inl PanicDivisionByZero
      else if 0 < y then Inr (x div y)
      else Inr (- (x div (- y))))"

text \<open>
  The inverse of \<open>g\<close> in the ring of integers modulo \<open>n\<close>, for \<open>0 < n\<close>: the
  element of \<open>[0, n)\<close> whose product with \<open>g\<close> is one modulo \<open>n\<close>, if there is one.
\<close>

definition inverse_mod :: "int \<Rightarrow> int \<Rightarrow> int option" where
  "inverse_mod g n = List.find (\<lambda>x. (g * x) mod n = 1 mod n) [0..n - 1]"

text \<open>
  \<^verbatim>\<open>ModInverse\<close> takes the modulus by absolute value and returns \<^verbatim>\<open>nil\<close> when
  \<open>g\<close> and \<open>n\<close> are not relatively prime. With \<open>n = 0\<close> it reduces a negative \<open>g\<close>
  modulo zero, which panics; otherwise the greatest common divisor is \<open>g\<close> itself.
\<close>

definition ModInverse :: "int \<Rightarrow> int \<Rightarrow> failure + int option" where
  "ModInverse g n =
     (if n = 0 then
        (if g < 0 then Inl PanicDivisionByZero
         else Inr (if g = 1 then Some 1 else None))
      else Inr (inverse_mod g \<bar>n\<bar>))"

text \<open>
  \<^verbatim>\<open>Exp(x, y, m)\<close> with a non-nil \<open>m\<close>: \<open>x\<^sup>y mod |m|\<close>; with \<open>m = 0\<close> the power is
  not reduced and a non-positive exponent gives one. With \<open>y < 0\<close> and \<open>m \<noteq> 0\<close> the
  base is inverted first and the result is \<^verbatim>\<open>nil\<close> when it has no inverse; the power of
  the inverse is then reduced, and the sign rule of the library is applied to it as to any
  other power: for a negative \<open>x\<close>, an odd \<open>y\<close> and a remainder that is not zero, the
  remainder is subtracted from \<open>|m|\<close>.
\<close>

definition Exp :: "int \<Rightarrow> int \<Rightarrow> int \<Rightarrow> int option" where
  "Exp x y m =
     (if m = 0 then Some (if y \<le> 0 then 1 else x ^ nat y)
      else if y < 0 then
        (case inverse_mod x \<bar>m\<bar> of
           None \<Rightarrow> None
         | Some i \<Rightarrow>
             (let z = i ^ nat (- y) mod \<bar>m\<bar> in
              Some (if z \<noteq> 0 \<and> x < 0 \<and> odd y then \<bar>m\<bar> - z else z)))
      else Some (x ^ nat y mod \<bar>m\<bar>))"

subsection \<open>Keys\<close>

record PublicKey =
  N1 :: int
  G :: int
  NSquared :: int

record PrivateKey =
  PublicKey :: PublicKey
  P :: int
  PP :: int
  Pminusone :: int
  Q :: int
  QQ :: int
  Qminusone :: int
  Pinvq :: "int option"
  Hp :: "int option"
  Hq :: "int option"
  N :: int

definition l :: "int \<Rightarrow> int \<Rightarrow> failure + int" where
  "l u n = Div (u - 1) n"

definition h :: "int \<Rightarrow> int \<Rightarrow> int \<Rightarrow> failure + int option" where
  "h p pp n =
     bind (Mod (1 - n) pp) (\<lambda>gp.
     bind (l gp p) (\<lambda>lp.
     ModInverse lp p))"

text \<open>
  \<^verbatim>\<open>GenerateKey(random, bits)\<close> uses its two arguments only in the two calls
  \<^verbatim>\<open>rand.Prime(random, bits/2)\<close>. The outcomes of these two calls (an error of the
  random source, or the number found) are the parameters of the model: \<open>prime_p\<close> for the
  search in the background, \<open>prime_q\<close> for the one in the foreground, whose error is
  looked at first.
\<close>

definition GenerateKey :: "failure + int \<Rightarrow> failure + int \<Rightarrow> failure + PrivateKey" where
  "GenerateKey prime_p prime_q =
     (case prime_q of
        Inl err \<Rightarrow> Inl err
      | Inr q \<Rightarrow>
          (case prime_p of
             Inl err \<Rightarrow> Inl err
           | Inr p \<Rightarrow>
               (let n = p * q; pp = p * p; qq = q * q in
                bind (ModInverse p q) (\<lambda>pinvq.
                bind (h p pp n) (\<lambda>hp.
                bind (h q qq n) (\<lambda>hq.
                Inr \<lparr> PublicKey = \<lparr> N1 = n, G = n + 1, NSquared = n * n \<rparr>,
                      P = p, PP = pp, Pminusone = p - 1,
                      Q = q, QQ = qq, Qminusone = q - 1,
                      Pinvq = pinvq, Hp = hp, Hq = hq, N = n \<rparr>))))))"

subsection \<open>Encryption\<close>

definition EncryptWithNonce :: "PublicKey \<Rightarrow> int \<Rightarrow> byte list \<Rightarrow> failure + int" where
  "EncryptWithNonce pubKey r plainText =
     (let m = SetBytes plainText in
      if Cmp (N1 pubKey) m < 1 then Inl ErrMessageTooLong
      else
        (let n = N1 pubKey in
         bind (Mod (1 + m * n) (NSquared pubKey)) (\<lambda>gm.
         bind (deref (Exp r n (NSquared pubKey))) (\<lambda>rn.
         Mod (gm * rn) (NSquared pubKey)))))"

text \<open>
  \<^verbatim>\<open>EncryptAndNonce\<close> draws the nonce with \<^verbatim>\<open>rand.Int(rand.Reader, pubKey.N1)\<close>, which
  panics on a bound that is not positive; the outcome of the draw is the parameter
  \<open>drawn\<close>.
\<close>

definition EncryptAndNonce ::
  "PublicKey \<Rightarrow> failure + int \<Rightarrow> byte list \<Rightarrow> failure + (byte list \<times> int)" where
  "EncryptAndNonce pubKey drawn plainText =
     (if N1 pubKey \<le> 0 then Inl PanicNonPositiveBound
      else
        (case drawn of
           Inl err \<Rightarrow> Inl err
         | Inr r \<Rightarrow>
             (case EncryptWithNonce pubKey r plainText of
                Inl err \<Rightarrow> Inl err
              | Inr c \<Rightarrow> Inr (Bytes c, r))))"

definition Encrypt :: "PublicKey \<Rightarrow> failure + int \<Rightarrow> byte list \<Rightarrow> failure + byte list" where
  "Encrypt pubKey drawn plainText =
     (case EncryptAndNonce pubKey drawn plainText of
        Inl err \<Rightarrow> Inl err
      | Inr (c, r) \<Rightarrow> Inr c)"

subsection \<open>Decryption\<close>

definition crt :: "int \<Rightarrow> int \<Rightarrow> PrivateKey \<Rightarrow> failure + int" where
  "crt mp mq privKey =
     bind (deref (Pinvq privKey)) (\<lambda>pinvq.
     bind (Mod ((mq - mp) * pinvq) (Q privKey)) (\<lambda>u.
     Mod (mp + u * P privKey) (N privKey)))"

definition Decrypt :: "PrivateKey \<Rightarrow> byte list \<Rightarrow> failure + byte list" where
  "Decrypt privKey cipherText =
     (let c = SetBytes cipherText in
      if Cmp (NSquared (PublicKey privKey)) c < 1 then Inl ErrMessageTooLong
      else
        bind (deref (Exp c (Pminusone privKey) (PP privKey))) (\<lambda>cp.
        bind (l cp (P privKey)) (\<lambda>lp.
        bind (deref (Hp privKey)) (\<lambda>hp.
        bind (Mod (lp * hp) (P privKey)) (\<lambda>mp.
        bind (deref (Exp c (Qminusone privKey) (QQ privKey))) (\<lambda>cq.
        bind (l cq (Q privKey)) (\<lambda>lq.
        bind (deref (Hq privKey)) (\<lambda>hq.
        bind (Mod (lq * hq) (Q privKey)) (\<lambda>mq.
        bind (crt mp mq privKey) (\<lambda>m.
        Inr (Bytes m)))))))))))"

subsection \<open>Homomorphic operations\<close>

definition AddCipher :: "PublicKey \<Rightarrow> byte list \<Rightarrow> byte list \<Rightarrow> failure + byte list" where
  "AddCipher pubKey cipher1 cipher2 =
     (let x = SetBytes cipher1; y = SetBytes cipher2 in
      bind (Mod (x * y) (NSquared pubKey)) (\<lambda>z. Inr (Bytes z)))"

definition Add :: "PublicKey \<Rightarrow> byte list \<Rightarrow> byte list \<Rightarrow> failure + byte list" where
  "Add pubKey cipher constant =
     (let c = SetBytes cipher; x = SetBytes constant in
      bind (deref (Exp (G pubKey) x (NSquared pubKey))) (\<lambda>gx.
      bind (Mod (c * gx) (NSquared pubKey)) (\<lambda>z. Inr (Bytes z))))"

definition Mul :: "PublicKey \<Rightarrow> byte list \<Rightarrow> byte list \<Rightarrow> failure + byte list" where
  "Mul pubKey cipher constant =
     (let c = SetBytes cipher; x = SetBytes constant in
      bind (deref (Exp c x (NSquared pubKey))) (\<lambda>z. Inr (Bytes z)))"

subsection \<open>Primes\<close>

text \<open>
  \<^verbatim>\<open>rand.Prime\<close> is asked for primes; the theorems about keys assume that it delivered
  them. A number is prime when it exceeds one and no number strictly between one and
  itself divides it.
\<close>

definition is_prime :: "int \<Rightarrow> bool" where
  "is_prime p \<longleftrightarrow> 1 < p \<and> (\<forall>d \<in> set [2..p - 1]. \<not> d dvd p)"

subsection \<open>Concrete keys\<close>

text \<open>
  Three keys on which the operations are evaluated: the one for the primes 29 and 31
  (both of five bits with the two top bits set, a possible outcome of
  \<^verbatim>\<open>GenerateKey(random, 10)\<close>), the one for 3 and 3 (\<^verbatim>\<open>rand.Prime(random, 2)\<close> can only
  return 3, so this is what \<^verbatim>\<open>GenerateKey(random, 4)\<close> builds), and the toy key for 7 and 11.
\<close>

definition key_29_31 :: PrivateKey where
  "key_29_31 =
     \<lparr> PublicKey = \<lparr> N1 = 899, G = 900, NSquared = 808201 \<rparr>,
       P = 29, PP = 841, Pminusone = 28, Q = 31, QQ = 961, Qminusone = 30,
       Pinvq = Some 15, Hp = Some 14, Hq = Some 16, N = 899 \<rparr>"

definition key_3_3 :: PrivateKey where
  "key_3_3 =
     \<lparr> PublicKey = \<lparr> N1 = 9, G = 10, NSquared = 81 \<rparr>,
       P = 3, PP = 9, Pminusone = 2, Q = 3, QQ = 9, Qminusone = 2,
       Pinvq = None, Hp = None, Hq = None, N = 9 \<rparr>"

definition key_7_11 :: PrivateKey where
  "key_7_11 =
     \<lparr> PublicKey = \<lparr> N1 = 77, G = 78, NSquared = 5929 \<rparr>,
       P = 7, PP = 49, Pminusone = 6, Q = 11, QQ = 121, Qminusone = 10,
       Pinvq = Some 8, Hp = Some 5, Hq = Some 3, N = 77 \<rparr>"

text \<open>
  What \<^verbatim>\<open>rand.Prime(random, b)\<close> delivers when it returns no error: \<open>b\<close> is at least two
  and the result is a prime number of exactly \<open>b\<close> bits; the search sets the lowest bit of
  every candidate, so the result is odd.
\<close>

definition prime_of_bits :: "nat \<Rightarrow> int \<Rightarrow> bool" where
  "prime_of_bits b p \<longleftrightarrow> 2 \<le> b \<and> is_prime p \<and> odd p \<and> 2 ^ (b - 1) \<le> p \<and> p < 2 ^ b"

text \<open>A public key with modulus zero, whose \<open>NSquared\<close> is the square of the modulus.\<close>

definition pub_zero :: PublicKey where
  "pub_zero = \<lparr> N1 = 0, G = 1, NSquared = 0 \<rparr>"

text \<open>
  Two public keys with the modulus 77 whose \<open>NSquared\<close> is not the square of the modulus.
\<close>

definition pub_77_0 :: PublicKey where
  "pub_77_0 = \<lparr> N1 = 77, G = 78, NSquared = 0 \<rparr>"

definition pub_77_100 :: PublicKey where
  "pub_77_100 = \<lparr> N1 = 77, G = 78, NSquared = 100 \<rparr>"

section \<open>Number theory behind the scheme\<close>

subsection \<open>Primes, Fermat's little theorem and its lift to the square of a prime\<close>

lemma is_prime_gt_1: "is_prime p \<Longrightarrow> 1 < p"
  by (simp add: is_prime_def)

lemma is_prime_dvd:
  assumes "is_prime p" "d dvd p" "0 < d"
  shows "d = 1 \<or> d = p"
proof -
  have "1 < p" using assms(1) by (simp add: is_prime_def)
  then have "d \<le> p" using assms(2) by (simp add: zdvd_imp_le)
  show ?thesis
  proof (rule ccontr)
    assume "\<not> (d = 1 \<or> d = p)"
    with \<open>d \<le> p\<close> \<open>0 < d\<close> have "d \<in> set [2..p - 1]" by simp
    with assms(1,2) show False by (simp add: is_prime_def)
  qed
qed

lemma is_prime_coprime:
  assumes "is_prime p" "\<not> p dvd a"
  shows "coprime p a"
proof -
  have "1 < p" using assms(1) by (simp add: is_prime_def)
  have "gcd p a dvd p" by simp
  moreover have "0 < gcd p a" using \<open>1 < p\<close> by (simp add: gcd_pos_int)
  ultimately have "gcd p a = 1 \<or> gcd p a = p" using assms(1) is_prime_dvd by blast
  moreover have "gcd p a \<noteq> p" using assms(2) by (metis gcd_dvd2)
  ultimately show ?thesis by (simp add: coprime_iff_gcd_eq_1)
qed

lemma is_prime_dvd_mult:
  assumes "is_prime p" "p dvd a * b"
  shows "p dvd a \<or> p dvd b"
  using assms is_prime_coprime coprime_dvd_mult_right_iff by blast

lemma is_prime_dvd_choose:
  assumes "is_prime p" "0 < k" "k < nat p"
  shows "p dvd int (nat p choose k)"
proof -
  have "1 < p" using assms(1) by (simp add: is_prime_def)
  have "k * (nat p choose k) = nat p * ((nat p - 1) choose (k - 1))"
    using assms(2) by (rule times_binomial_minus1_eq)
  then have "int k * int (nat p choose k) = p * int ((nat p - 1) choose (k - 1))"
    using \<open>1 < p\<close> by (metis of_nat_mult int_nat_eq less_le_not_le not_one_le_zero order.strict_trans2 nle_le)
  then have "p dvd int k * int (nat p choose k)" by simp
  moreover have "\<not> p dvd int k"
    using assms(2,3) by (simp add: zdvd_not_zless)
  ultimately show ?thesis using is_prime_dvd_mult[OF assms(1)] by blast
qed

lemma sum_split_ends:
  fixes f :: "nat \<Rightarrow> int"
  assumes "0 < n"
  shows "(\<Sum>k\<le>n. f k) = f 0 + (\<Sum>k = 1..<n. f k) + f n"
  by (metis (no_types, lifting) One_nat_def add.commute add.left_commute
    assms atLeastLessThanSuc_atLeastAtMost lessThan_atLeast0 not_less_eq
    sum.atMost_shift sum.head_if sum.shift_bounds_Suc_ivl)

lemma is_prime_dvd_power_add_one:
  assumes "is_prime p"
  shows "p dvd (a + 1) ^ nat p - (a ^ nat p + 1)"
proof -
  have "1 < p" using assms by (simp add: is_prime_def)
  then have n: "0 < nat p" by simp
  have "(a + 1) ^ nat p = (\<Sum>k\<le>nat p. int (nat p choose k) * a ^ k * 1 ^ (nat p - k))"
    by (simp only: binomial_ring of_nat_id)
  also have "\<dots> = (\<Sum>k\<le>nat p. int (nat p choose k) * a ^ k)" by simp
  also have "\<dots> = 1 + (\<Sum>k = 1..<nat p. int (nat p choose k) * a ^ k) + a ^ nat p"
    using sum_split_ends[OF n, of "\<lambda>k. int (nat p choose k) * a ^ k"] by simp
  finally have "(a + 1) ^ nat p - (a ^ nat p + 1) = (\<Sum>k = 1..<nat p. int (nat p choose k) * a ^ k)"
    by simp
  moreover have "p dvd (\<Sum>k = 1..<nat p. int (nat p choose k) * a ^ k)"
  proof (rule dvd_sum)
    fix k assume "k \<in> {1..<nat p}"
    then have "p dvd int (nat p choose k)" using is_prime_dvd_choose[OF assms, of k] by simp
    then show "p dvd int (nat p choose k) * a ^ k" by simp
  qed
  ultimately show ?thesis by simp
qed

lemma is_prime_dvd_power_diff_nat:
  assumes "is_prime p"
  shows "p dvd int a ^ nat p - int a"
proof (induction a)
  case 0
  have "0 < nat p" using assms by (simp add: is_prime_def)
  then show ?case by (simp add: zero_power)
next
  case (Suc a)
  have eq: "int (Suc a) ^ nat p - int (Suc a)
      = ((int a + 1) ^ nat p - (int a ^ nat p + 1)) + (int a ^ nat p - int a)"
    by (simp add: add.commute)
  have "p dvd ((int a + 1) ^ nat p - (int a ^ nat p + 1)) + (int a ^ nat p - int a)"
    using is_prime_dvd_power_add_one[OF assms, of "int a"] Suc.IH by (rule dvd_add)
  then show ?case by (simp only: eq)
qed

lemma fermat_little:
  assumes "is_prime p" "\<not> p dvd a"
  shows "a ^ nat (p - 1) mod p = 1"
proof -
  have p1: "1 < p" using assms(1) by (simp add: is_prime_def)
  define b where "b = a mod p"
  have b0: "0 \<le> b" using p1 by (simp add: b_def)
  have nb: "\<not> p dvd b" using assms(2) by (simp add: b_def dvd_mod_iff)
  have "p dvd int (nat b) ^ nat p - int (nat b)"
    by (rule is_prime_dvd_power_diff_nat[OF assms(1)])
  then have "p dvd b ^ nat p - b" using b0 by simp
  moreover have "nat p = Suc (nat (p - 1))" using p1 by simp
  then have "b ^ nat p - b = b * (b ^ nat (p - 1) - 1)" by (simp add: algebra_simps)
  ultimately have "p dvd b * (b ^ nat (p - 1) - 1)" by simp
  then have "p dvd b ^ nat (p - 1) - 1" using is_prime_dvd_mult[OF assms(1)] nb by blast
  then have "b ^ nat (p - 1) mod p = 1 mod p"
    by (simp add: mod_eq_dvd_iff)
  then have "a ^ nat (p - 1) mod p = 1 mod p" by (simp add: b_def power_mod)
  then show ?thesis using p1 by simp
qed

lemma linear_power_mod_square:
  fixes p t :: int
  shows "(1 + p * t) ^ k mod (p * p) = (1 + int k * p * t) mod (p * p)"
proof (induction k)
  case 0
  show ?case by simp
next
  case (Suc k)
  have "(1 + p * t) ^ Suc k mod (p * p) = ((1 + p * t) * ((1 + p * t) ^ k mod (p * p))) mod (p * p)"
    by (simp add: mod_mult_right_eq)
  also have "\<dots> = ((1 + p * t) * (1 + int k * p * t)) mod (p * p)"
    by (simp only: Suc.IH mod_mult_right_eq)
  also have "(1 + p * t) * (1 + int k * p * t) = (1 + int (Suc k) * p * t) + (p * p) * (int k * t * t)"
    by (simp add: algebra_simps)
  also have "\<dots> mod (p * p) = (1 + int (Suc k) * p * t) mod (p * p)"
    by (simp only: mod_mult_self2)
  finally show ?case .
qed

lemma euler_prime_square:
  assumes "is_prime p" "\<not> p dvd a"
  shows "a ^ (nat (p - 1) * nat p) mod (p * p) = 1"
proof -
  have p1: "1 < p" using assms(1) by (simp add: is_prime_def)
  have "a ^ nat (p - 1) mod p = 1" by (rule fermat_little[OF assms])
  then have "p dvd a ^ nat (p - 1) - 1" using p1 by (simp add: mod_eq_dvd_iff[symmetric])
  then obtain t where t: "a ^ nat (p - 1) - 1 = p * t" by (auto simp: dvd_def)
  then have "a ^ nat (p - 1) = 1 + p * t" by simp
  then have "a ^ (nat (p - 1) * nat p) = (1 + p * t) ^ nat p" by (simp add: power_mult)
  then have "a ^ (nat (p - 1) * nat p) mod (p * p) = (1 + int (nat p) * p * t) mod (p * p)"
    by (simp only: linear_power_mod_square)
  also have "int (nat p) * p * t = (p * p) * t" using p1 by simp
  also have "(1 + (p * p) * t) mod (p * p) = 1 mod (p * p)" by (simp only: mod_mult_self2)
  also have "1 < p * p" using p1 by (simp add: less_1_mult)
  then have "1 mod (p * p) = 1" by simp
  finally show ?thesis .
qed

lemma one_plus_mult_mod_square:
  fixes p t :: int
  assumes "1 < p"
  shows "(1 + p * t) mod (p * p) = 1 + p * (t mod p)"
proof -
  have "1 + p * t = (1 + p * (t mod p)) + (p * p) * (t div p)"
  proof -
    have "p * t = p * (p * (t div p) + t mod p)" by simp
    also have "\<dots> = p * (t mod p) + (p * p) * (t div p)" by (simp only: distrib_left mult.assoc add.commute)
    finally show ?thesis by simp
  qed
  then have "(1 + p * t) mod (p * p) = (1 + p * (t mod p)) mod (p * p)"
    by (metis mod_mult_self2)
  moreover have "0 \<le> 1 + p * (t mod p)" using assms by simp
  moreover have "1 + p * (t mod p) < p * p"
  proof -
    have "t mod p \<le> p - 1" using assms by simp
    then have "p * (t mod p) \<le> p * (p - 1)" using assms by (simp add: mult_left_mono)
    then have "p * (t mod p) \<le> p * p - p" by (simp add: algebra_simps)
    then show ?thesis using assms by linarith
  qed
  ultimately show ?thesis by simp
qed

subsection \<open>Byte strings and modular inverses\<close>

lemma SetBytes_snoc: "SetBytes (buf @ [b]) = SetBytes buf * 256 + uint b"
  by (simp add: SetBytes_def)

text \<open>The first byte is the most significant one.\<close>

lemma SetBytes_Cons: "SetBytes (b # buf) = uint b * 256 ^ length buf + SetBytes buf"
proof (induction buf rule: rev_induct)
  case Nil
  show ?case by (simp add: SetBytes_def)
next
  case (snoc x xs)
  have "SetBytes (b # xs @ [x]) = SetBytes ((b # xs) @ [x])" by simp
  also have "\<dots> = SetBytes (b # xs) * 256 + uint x" by (rule SetBytes_snoc)
  finally show ?case by (simp add: snoc.IH SetBytes_snoc algebra_simps)
qed

lemma SetBytes_nonneg: "0 \<le> SetBytes buf"
  by (induction buf rule: rev_induct) (simp_all add: SetBytes_snoc, simp add: SetBytes_def)

lemma uint_byte_of_nat: "uint (of_nat (n mod 256) :: byte) = int (n mod 256)"
  by (simp add: uint_nat unat_of_nat)

lemma SetBytes_nat_bytes: "SetBytes (nat_bytes n) = int n"
proof (induction n rule: nat_bytes.induct)
  case (1 n)
  show ?case
  proof (cases "n = 0")
    case True
    then show ?thesis by (simp add: nat_bytes.simps SetBytes_def)
  next
    case False
    then have "SetBytes (nat_bytes n) = SetBytes (nat_bytes (n div 256)) * 256 + uint (of_nat (n mod 256) :: byte)"
      by (subst nat_bytes.simps) (simp add: SetBytes_snoc)
    also have "\<dots> = int (n div 256) * 256 + int (n mod 256)"
      using 1 False by (simp add: uint_byte_of_nat)
    also have "\<dots> = int n" by (simp add: zdiv_int zmod_int)
    finally show ?thesis .
  qed
qed

lemma SetBytes_Bytes: "SetBytes (Bytes x) = \<bar>x\<bar>"
  by (simp add: Bytes_def SetBytes_nat_bytes)

lemma inverse_mod_Some:
  assumes "1 < n" "coprime g n"
  shows "\<exists>x. inverse_mod g n = Some x \<and> 0 \<le> x \<and> x < n \<and> (g * x) mod n = 1"
proof -
  obtain u v where uv: "u * g + v * n = 1"
    using bezout_int[of g n] assms(2) by (auto simp: coprime_iff_gcd_eq_1)
  have "(g * (u mod n)) mod n = (g * u) mod n" by (simp add: mod_mult_right_eq)
  also have "g * u = 1 - v * n" using uv by (simp add: algebra_simps)
  also have "(1 - v * n) mod n = 1 mod n" by (metis mod_mult_self1 add_uminus_conv_diff mult_minus_left)
  finally have "(g * (u mod n)) mod n = 1 mod n" .
  moreover have "u mod n \<in> set [0..n - 1]" using assms(1) by simp
  ultimately have "inverse_mod g n \<noteq> None"
    by (auto simp: inverse_mod_def find_None_iff)
  then obtain x where x: "inverse_mod g n = Some x" by auto
  then have "x \<in> set [0..n - 1] \<and> (g * x) mod n = 1 mod n"
    unfolding inverse_mod_def by (auto simp: find_Some_iff)
  then show ?thesis using x assms(1) by auto
qed

lemma inverse_mod_None:
  assumes "1 < n" "\<not> coprime g n"
  shows "inverse_mod g n = None"
proof (rule ccontr)
  assume "inverse_mod g n \<noteq> None"
  then obtain x where "(g * x) mod n = 1 mod n"
    by (auto simp: inverse_mod_def find_None_iff)
  then have "n dvd g * x - 1" by (simp add: mod_eq_dvd_iff)
  then obtain k where k: "g * x - 1 = n * k" by (auto simp: dvd_def)
  have "coprime g n"
  proof (rule coprimeI)
    fix d assume "d dvd g" "d dvd n"
    then have "d dvd g * x - n * k" by simp
    moreover have "g * x - n * k = 1" using k by simp
    ultimately show "is_unit d" by simp
  qed
  with assms(2) show False by simp
qed

subsection \<open>The two halves of the decryption and their recombination\<close>

lemma bind_Inr [simp]: "bind (Inr v) f = f v"
  by (simp add: bind_def)

lemma bind_Inl [simp]: "bind (Inl e) f = Inl e"
  by (simp add: bind_def)

lemma deref_Some [simp]: "deref (Some v) = Inr v"
  by (simp add: deref_def)

lemma deref_None [simp]: "deref None = Inl PanicNilDereference"
  by (simp add: deref_def)

lemma Mod_pos: "0 < y \<Longrightarrow> Mod x y = Inr (x mod y)"
  by (simp add: Mod_def)

lemma Div_pos: "0 < y \<Longrightarrow> Div x y = Inr (x div y)"
  by (simp add: Div_def)

lemma Exp_pos: "0 \<le> y \<Longrightarrow> 0 < m \<Longrightarrow> Exp x y m = Some (x ^ nat y mod m)"
  by (simp add: Exp_def)

lemma is_prime_distinct_not_dvd:
  assumes "is_prime p" "is_prime q" "p \<noteq> q"
  shows "\<not> p dvd q"
proof
  assume "p dvd q"
  moreover have "0 < p" "p \<noteq> 1" using assms(1) by (simp_all add: is_prime_def)
  ultimately show False using is_prime_dvd[OF assms(2), of p] assms(3) by simp
qed

lemma h_prime:
  assumes "is_prime p" "\<not> p dvd q"
  shows "\<exists>x. h p (p * p) (p * q) = Inr (Some x) \<and> p dvd q * x + 1"
proof -
  have p1: "1 < p" using assms(1) by (simp add: is_prime_def)
  then have pp: "0 < p * p" by simp
  define w where "w = (- q) mod p"
  have "(1 + p * (- q)) mod (p * p) = 1 + p * w"
    unfolding w_def by (rule one_plus_mult_mod_square[OF p1])
  then have gp: "Mod (1 - p * q) (p * p) = Inr (1 + p * w)"
    using pp by (simp add: Mod_pos)
  have lp: "l (1 + p * w) p = Inr w"
    using p1 by (simp add: l_def Div_pos)
  have "\<not> p dvd w" using assms(2) by (simp add: w_def dvd_mod_iff)
  then have "coprime p w" by (rule is_prime_coprime[OF assms(1)])
  then have "coprime w p" by (simp add: coprime_commute)
  then obtain x where x: "inverse_mod w p = Some x" "(w * x) mod p = 1"
    using inverse_mod_Some[OF p1] by blast
  have "(w * x) mod p = ((- q) * x) mod p" by (simp add: w_def mod_mult_left_eq)
  then have "((- q) * x) mod p = 1 mod p" using x(2) p1 by simp
  then have "p dvd (- q) * x - 1" by (simp add: mod_eq_dvd_iff)
  moreover have "(- q) * x - 1 = - (q * x + 1)" by simp
  ultimately have "p dvd - (q * x + 1)" by (simp only:)
  then have dvd: "p dvd q * x + 1" by (simp only: dvd_minus_iff)
  have "h p (p * p) (p * q) = Inr (Some x)"
    using p1 by (simp add: h_def gp lp ModInverse_def x(1))
  with dvd show ?thesis by blast
qed

lemma power_nonce_mod_square:
  assumes "is_prime p" "\<not> p dvd s" "0 < q"
  shows "(s ^ nat (p * q)) ^ nat (p - 1) mod (p * p) = 1"
proof -
  have p1: "1 < p" using assms(1) by (simp add: is_prime_def)
  have "nat (p * q) = nat p * nat q" using p1 by (simp add: nat_mult_distrib)
  then have "(s ^ nat (p * q)) ^ nat (p - 1) = (s ^ (nat (p - 1) * nat p)) ^ nat q"
    by (simp add: power_mult[symmetric] mult_ac)
  also have "\<dots> mod (p * p) = (s ^ (nat (p - 1) * nat p) mod (p * p)) ^ nat q mod (p * p)"
    by (simp only: power_mod)
  also have "\<dots> = 1 mod (p * p)"
    by (simp only: euler_prime_square[OF assms(1,2)] power_one)
  also have "\<dots> = 1" using p1 by (simp add: less_1_mult)
  finally show ?thesis .
qed

lemma residue_power_value:
  assumes "is_prime p" "\<not> p dvd s" "0 < q"
    and c: "c mod (p * p) = ((1 + m * (p * q)) * s ^ nat (p * q)) mod (p * p)"
  shows "c ^ nat (p - 1) mod (p * p) = 1 + p * (((p - 1) * (m * q)) mod p)"
proof -
  have p1: "1 < p" using assms(1) by (simp add: is_prime_def)
  let ?k = "nat (p - 1)"
  have "c ^ ?k mod (p * p) = (c mod (p * p)) ^ ?k mod (p * p)" by (simp only: power_mod)
  also have "\<dots> = ((1 + m * (p * q)) * s ^ nat (p * q)) ^ ?k mod (p * p)"
    by (simp only: c power_mod)
  also have "\<dots> = ((1 + p * (m * q)) ^ ?k * (s ^ nat (p * q)) ^ ?k) mod (p * p)"
    by (simp add: power_mult_distrib mult_ac)
  also have "\<dots> = ((1 + p * (m * q)) ^ ?k mod (p * p) * ((s ^ nat (p * q)) ^ ?k mod (p * p))) mod (p * p)"
    by (simp only: mod_mult_eq)
  also have "\<dots> = (1 + int ?k * p * (m * q)) mod (p * p)"
    by (simp only: power_nonce_mod_square[OF assms(1,2,3)] linear_power_mod_square mult_1_right mod_mod_trivial)
  also have "int ?k * p * (m * q) = p * ((p - 1) * (m * q))" using p1 by simp
  also have "(1 + p * ((p - 1) * (m * q))) mod (p * p) = 1 + p * (((p - 1) * (m * q)) mod p)"
    by (rule one_plus_mult_mod_square[OF p1])
  finally show ?thesis .
qed

lemma half_decrypt:
  assumes "is_prime p" "\<not> p dvd s" "0 < q"
    and c: "c mod (p * p) = ((1 + m * (p * q)) * s ^ nat (p * q)) mod (p * p)"
    and hp: "p dvd q * hp + 1"
  shows "\<exists>cp lp. Exp c (p - 1) (p * p) = Some cp \<and> l cp p = Inr lp
          \<and> Mod (lp * hp) p = Inr (m mod p)"
proof -
  have p1: "1 < p" using assms(1) by (simp add: is_prime_def)
  then have pp: "0 < p * p" by simp
  define w where "w = ((p - 1) * (m * q)) mod p"
  have cp: "Exp c (p - 1) (p * p) = Some (1 + p * w)"
    using p1 pp by (simp add: Exp_pos residue_power_value[OF assms(1,2,3) c] w_def)
  have lp: "l (1 + p * w) p = Inr w"
    using p1 by (simp add: l_def Div_pos)
  have "(w * hp) mod p = ((p - 1) * (m * q) * hp) mod p"
    by (simp add: w_def mod_mult_left_eq)
  also have "\<dots> = m mod p"
  proof -
    have "(p - 1) * (m * q) * hp - m = (p - 1) * m * (q * hp + 1) - p * m"
      by (simp add: algebra_simps)
    moreover have "p dvd (p - 1) * m * (q * hp + 1) - p * m"
      using hp by (simp add: dvd_diff)
    ultimately show ?thesis by (simp add: mod_eq_dvd_iff)
  qed
  finally have "Mod (w * hp) p = Inr (m mod p)" using p1 by (simp add: Mod_pos)
  with cp lp show ?thesis by blast
qed

lemma crt_recombine:
  fixes p q m pinv :: int
  assumes "1 < p" "1 < q" "coprime p q" "(p * pinv) mod q = 1"
  shows "(m mod p + (((m mod q - m mod p) * pinv) mod q) * p) mod (p * q) = m mod (p * q)"
proof -
  define u where "u = ((m mod q - m mod p) * pinv) mod q"
  define x where "x = m mod p + u * p"
  have "x - m = p * u - p * (m div p)"
    by (simp add: x_def algebra_simps minus_div_mult_eq_mod[symmetric])
  then have dp: "p dvd x - m" by (simp add: dvd_diff)
  have "q dvd p * pinv - 1" using assms(2,4) by (simp add: mod_eq_dvd_iff[symmetric])
  have "q dvd u - (m mod q - m mod p) * pinv" by (simp add: u_def mod_eq_dvd_iff[symmetric])
  then have "q dvd (u - (m mod q - m mod p) * pinv) * p" by simp
  moreover have "q dvd (m mod q - m mod p) * (p * pinv - 1)" using \<open>q dvd p * pinv - 1\<close> by simp
  ultimately have "q dvd (u - (m mod q - m mod p) * pinv) * p + (m mod q - m mod p) * (p * pinv - 1)"
    by (rule dvd_add)
  moreover have "(u - (m mod q - m mod p) * pinv) * p + (m mod q - m mod p) * (p * pinv - 1)
      = x - m mod q"
    by (simp add: x_def algebra_simps)
  ultimately have "q dvd x - m mod q" by simp
  moreover have "q dvd m mod q - m" by (simp add: mod_eq_dvd_iff[symmetric])
  ultimately have "q dvd (x - m mod q) + (m mod q - m)" by (rule dvd_add)
  then have dq: "q dvd x - m" by simp
  have "p * q dvd x - m" using dp dq assms(3) by (rule divides_mult)
  then show ?thesis by (simp add: x_def u_def mod_eq_dvd_iff)
qed

subsection \<open>Key generation from two distinct primes, and decryption of a residue in Paillier form\<close>

lemma GenerateKey_primes:
  assumes "is_prime p" "is_prime q" "p \<noteq> q"
  shows "\<exists>pinv hp hq.
     GenerateKey (Inr p) (Inr q) =
       Inr \<lparr> PublicKey = \<lparr> N1 = p * q, G = p * q + 1, NSquared = (p * q) * (p * q) \<rparr>,
             P = p, PP = p * p, Pminusone = p - 1,
             Q = q, QQ = q * q, Qminusone = q - 1,
             Pinvq = Some pinv, Hp = Some hp, Hq = Some hq, N = p * q \<rparr>
     \<and> (p * pinv) mod q = 1 \<and> p dvd q * hp + 1 \<and> q dvd p * hq + 1"
proof -
  have p1: "1 < p" and q1: "1 < q" using assms(1,2) by (simp_all add: is_prime_def)
  have npq: "\<not> p dvd q" and nqp: "\<not> q dvd p"
    using assms is_prime_distinct_not_dvd by auto
  have "coprime q p" using is_prime_coprime[OF assms(2) nqp] .
  then have "coprime p q" by (simp add: coprime_commute)
  then obtain pinv where pinv: "inverse_mod p q = Some pinv" "(p * pinv) mod q = 1"
    using inverse_mod_Some[OF q1] by blast
  obtain hp where hp: "h p (p * p) (p * q) = Inr (Some hp)" "p dvd q * hp + 1"
    using h_prime[OF assms(1) npq] by blast
  obtain hq where hq: "h q (q * q) (q * p) = Inr (Some hq)" "q dvd p * hq + 1"
    using h_prime[OF assms(2) nqp] by blast
  have hq': "h q (q * q) (p * q) = Inr (Some hq)" using hq(1) by (simp add: mult.commute)
  have "ModInverse p q = Inr (Some pinv)" using q1 pinv(1) by (simp add: ModInverse_def)
  then have "GenerateKey (Inr p) (Inr q) =
       Inr \<lparr> PublicKey = \<lparr> N1 = p * q, G = p * q + 1, NSquared = (p * q) * (p * q) \<rparr>,
             P = p, PP = p * p, Pminusone = p - 1,
             Q = q, QQ = q * q, Qminusone = q - 1,
             Pinvq = Some pinv, Hp = Some hp, Hq = Some hq, N = p * q \<rparr>"
    by (simp add: GenerateKey_def Let_def hp(1) hq')
  with pinv(2) hp(2) hq(2) show ?thesis by blast
qed

lemma mod_square_factor:
  fixes c x p q :: int
  assumes "c mod ((p * q) * (p * q)) = x mod ((p * q) * (p * q))"
  shows "c mod (p * p) = x mod (p * p)"
proof -
  have d: "p * p dvd (p * q) * (p * q)" by (simp add: mult_ac)
  have "c mod (p * p) = (c mod ((p * q) * (p * q))) mod (p * p)"
    by (simp only: mod_mod_cancel[OF d])
  also have "\<dots> = x mod (p * p)" by (simp only: assms mod_mod_cancel[OF d])
  finally show ?thesis .
qed

lemma Decrypt_residue:
  assumes "is_prime p" "is_prime q" "p \<noteq> q"
    and key: "GenerateKey (Inr p) (Inr q) = Inr k"
    and s: "coprime s (p * q)"
    and bound: "SetBytes ct < (p * q) * (p * q)"
    and c: "SetBytes ct mod ((p * q) * (p * q))
              = ((1 + m * (p * q)) * s ^ nat (p * q)) mod ((p * q) * (p * q))"
  shows "Decrypt k ct = Inr (Bytes (m mod (p * q)))"
proof -
  have p1: "1 < p" and q1: "1 < q" using assms(1,2) by (simp_all add: is_prime_def)
  obtain pinv hp hq where
    k: "k = \<lparr> PublicKey = \<lparr> N1 = p * q, G = p * q + 1, NSquared = (p * q) * (p * q) \<rparr>,
             P = p, PP = p * p, Pminusone = p - 1,
             Q = q, QQ = q * q, Qminusone = q - 1,
             Pinvq = Some pinv, Hp = Some hp, Hq = Some hq, N = p * q \<rparr>"
    and pinv: "(p * pinv) mod q = 1" and hp: "p dvd q * hp + 1" and hq: "q dvd p * hq + 1"
    using GenerateKey_primes[OF assms(1,2,3)] key by auto
  have nps: "\<not> p dvd s"
  proof
    assume "p dvd s"
    then have "p dvd 1" using s by (meson coprime_common_divisor dvd_triv_left) 
    then show False using p1 by simp
  qed
  have nqs: "\<not> q dvd s"
  proof
    assume "q dvd s"
    then have "q dvd 1" using s by (meson coprime_common_divisor dvd_triv_right)
    then show False using q1 by simp
  qed
  have cp: "SetBytes ct mod (p * p) = ((1 + m * (p * q)) * s ^ nat (p * q)) mod (p * p)"
    using c by (rule mod_square_factor)
  have c': "SetBytes ct mod ((q * p) * (q * p))
              = ((1 + m * (q * p)) * s ^ nat (q * p)) mod ((q * p) * (q * p))"
    using c by (simp add: mult.commute)
  have cq: "SetBytes ct mod (q * q) = ((1 + m * (q * p)) * s ^ nat (q * p)) mod (q * q)"
    using c' by (rule mod_square_factor)
  obtain ep lp where ep: "Exp (SetBytes ct) (p - 1) (p * p) = Some ep" "l ep p = Inr lp"
      "Mod (lp * hp) p = Inr (m mod p)"
    using half_decrypt[OF assms(1) nps _ cp hp] q1 by auto
  obtain eq lq where eq: "Exp (SetBytes ct) (q - 1) (q * q) = Some eq" "l eq q = Inr lq"
      "Mod (lq * hq) q = Inr (m mod q)"
    using half_decrypt[OF assms(2) nqs _ cq hq] p1 by auto
  have nqp: "\<not> q dvd p" using assms is_prime_distinct_not_dvd by auto
  have "coprime q p" using is_prime_coprime[OF assms(2) nqp] .
  then have cop: "coprime p q" by (simp add: coprime_commute)
  have pq: "0 < p * q" using p1 q1 by simp
  have "crt (m mod p) (m mod q) k = Inr (m mod (p * q))"
    using q1 pq by (simp add: crt_def k Mod_pos crt_recombine[OF p1 q1 cop pinv])
  then show ?thesis
    using bound by (simp add: Decrypt_def Let_def Cmp_def k ep eq)
qed

subsection \<open>Encryption with a given nonce\<close>

lemma EncryptWithNonce_in_range:
  assumes "NSquared pub = N1 pub * N1 pub" "SetBytes pt < N1 pub"
  shows "EncryptWithNonce pub r pt =
           Inr (((1 + SetBytes pt * N1 pub) mod (N1 pub * N1 pub))
                * (r ^ nat (N1 pub) mod (N1 pub * N1 pub)) mod (N1 pub * N1 pub))"
proof -
  have "0 \<le> SetBytes pt" by (rule SetBytes_nonneg)
  then have n: "0 < N1 pub" using assms(2) by simp
  then have nn: "0 < N1 pub * N1 pub" by simp
  show ?thesis
    using assms n nn by (simp add: EncryptWithNonce_def Let_def Cmp_def Mod_pos Exp_pos)
qed

lemma EncryptWithNonce_too_long:
  assumes "N1 pub \<le> SetBytes pt"
  shows "EncryptWithNonce pub r pt = Inl ErrMessageTooLong"
  using assms by (simp add: EncryptWithNonce_def Let_def Cmp_def)

subsection \<open>The concrete keys, evaluated\<close>

lemma key_29_31_generated: "GenerateKey (Inr 29) (Inr 31) = Inr key_29_31"
  by code_simp

lemma key_3_3_generated: "GenerateKey (Inr 3) (Inr 3) = Inr key_3_3"
  by code_simp

lemma key_7_11_generated: "GenerateKey (Inr 7) (Inr 11) = Inr key_7_11"
  by code_simp

lemma is_prime_small: "is_prime 3" "is_prime 7" "is_prime 11" "is_prime 29" "is_prime 31"
  by code_simp+

lemma Decrypt_key_29_31_zero: "Decrypt key_29_31 [] = Inr [15]"
  by (simp add: Decrypt_def key_29_31_def SetBytes_def Cmp_def Exp_pos l_def Div_pos Mod_pos
      crt_def Bytes_def nat_bytes.simps)

lemma Decrypt_key_3_3_panics: "SetBytes ct < 81 \<Longrightarrow> Decrypt key_3_3 ct = Inl PanicNilDereference"
  using SetBytes_nonneg[of ct]
  by (simp add: Decrypt_def key_3_3_def Cmp_def Exp_pos l_def Div_pos Let_def)

text \<open>
  The power \<open>29\<^sup>8\<^sup>9\<^sup>9\<close> modulo \<open>899\<^sup>2\<close> is computed by squaring, so that no number
  beyond the square of the modulus is ever written out.
\<close>

lemma power_mod_even_step:
  fixes x :: int
  assumes "x ^ n mod m = a" "k = 2 * n" "b = (a * a) mod m"
  shows "x ^ k mod m = b"
proof -
  have "x ^ k = x ^ n * x ^ n" by (simp add: assms(2) mult_2 power_add)
  then have "x ^ k mod m = ((x ^ n mod m) * (x ^ n mod m)) mod m" by (simp only: mod_mult_eq)
  then show ?thesis by (simp only: assms(1,3))
qed

lemma power_mod_odd_step:
  fixes x :: int
  assumes "x ^ n mod m = a" "k = 2 * n + 1" "b = (a * a * x) mod m"
  shows "x ^ k mod m = b"
proof -
  have xk: "x ^ k = x ^ n * x ^ n * x" by (simp add: assms(2) mult_2 power_add)
  have e: "(x ^ n * x ^ n) mod m = (a * a) mod m" using assms(1) by (metis mod_mult_eq)
  have "x ^ k mod m = ((x ^ n * x ^ n) mod m * x) mod m" by (simp only: xk mod_mult_left_eq)
  also have "\<dots> = ((a * a) mod m * x) mod m" by (simp only: e)
  also have "\<dots> = (a * a * x) mod m" by (simp only: mod_mult_left_eq)
  finally show ?thesis by (simp only: assms(3))
qed

lemma power_29_899: "(29::int) ^ 899 mod 808201 = 622340"
proof -
  have s1: "(29::int) ^ 1 mod 808201 = 29" by simp
  have s3: "(29::int) ^ 3 mod 808201 = 24389" by (rule power_mod_odd_step[OF s1]) simp_all
  have s7: "(29::int) ^ 7 mod 808201 = 442366" by (rule power_mod_odd_step[OF s3]) simp_all
  have s14: "(29::int) ^ 14 mod 808201 = 394429" by (rule power_mod_even_step[OF s7]) simp_all
  have s28: "(29::int) ^ 28 mod 808201 = 392747" by (rule power_mod_even_step[OF s14]) simp_all
  have s56: "(29::int) ^ 56 mod 808201 = 195953" by (rule power_mod_even_step[OF s28]) simp_all
  have s112: "(29::int) ^ 112 mod 808201 = 756900" by (rule power_mod_even_step[OF s56]) simp_all
  have s224: "(29::int) ^ 224 mod 808201 = 290145" by (rule power_mod_even_step[OF s112]) simp_all
  have s449: "(29::int) ^ 449 mod 808201 = 283417" by (rule power_mod_odd_step[OF s224]) simp_all
  show ?thesis by (rule power_mod_odd_step[OF s449]) simp_all
qed

lemma Exp_29_899: "Exp 29 899 808201 = Some 622340"
proof -
  have "Exp 29 899 808201 = Some (29 ^ nat 899 mod 808201)" by (rule Exp_pos) simp_all
  moreover have "nat 899 = 899" by simp
  ultimately show ?thesis by (simp only: power_29_899)
qed

lemma EncryptWithNonce_key_29_31_multiple:
  "EncryptWithNonce (PublicKey key_29_31) 29 [5] = Inr 48778"
  by (simp add: key_29_31_def EncryptWithNonce_def SetBytes_def Cmp_def Mod_pos Exp_29_899)

lemma Decrypt_key_29_31_values:
  "Decrypt key_29_31 (Bytes 0) = Inr [15]"
  "Decrypt key_29_31 (Bytes 48778) = Inr [160]"
  "Decrypt key_29_31 (Bytes 309488) = Inr [1, 223]"
  "Decrypt key_29_31 (Bytes 674482) = Inr [2, 54]"
  "Decrypt key_29_31 (Bytes 757741) = Inr [2, 25]"
  by (simp_all add: Decrypt_def key_29_31_def SetBytes_def Cmp_def Exp_pos l_def Div_pos Mod_pos
      crt_def Bytes_def nat_bytes.simps)

subsection \<open>The contract of encryption\<close>

text \<open>
  C2 (amended). For a public key whose \<open>NSquared\<close> is the square of its modulus, and any nonce,
  \<open>EncryptWithNonce\<close> reads the plaintext as the big-endian integer \<open>m\<close>, returns
  \<open>ErrMessageTooLong\<close> exactly when \<open>m \<ge> N\<close>, and otherwise returns
  \<open>((1 + m N) mod N\<^sup>2) (r\<^sup>N mod N\<^sup>2) mod N\<^sup>2\<close>. Being a function of the key, the nonce
  and the plaintext, it is deterministic.
\<close>

theorem EncryptWithNonce_contract:
  assumes "NSquared pub = N1 pub * N1 pub"
  shows "EncryptWithNonce pub r pt =
           (if N1 pub \<le> SetBytes pt then Inl ErrMessageTooLong
            else Inr (((1 + SetBytes pt * N1 pub) mod (N1 pub * N1 pub))
                      * (r ^ nat (N1 pub) mod (N1 pub * N1 pub)) mod (N1 pub * N1 pub)))"
  using assms EncryptWithNonce_in_range[of pub pt r] EncryptWithNonce_too_long[of pub pt r]
  by (cases "N1 pub \<le> SetBytes pt") simp_all

theorem EncryptWithNonce_contract_witness:
  "NSquared (PublicKey key_7_11) = N1 (PublicKey key_7_11) * N1 (PublicKey key_7_11)
   \<and> EncryptWithNonce (PublicKey key_7_11) 2 [5] = Inr 4792
   \<and> EncryptWithNonce (PublicKey key_7_11) 2 [77] = Inl ErrMessageTooLong"
  using EncryptWithNonce_contract[of "PublicKey key_7_11" 2 "[5]"]
    EncryptWithNonce_contract[of "PublicKey key_7_11" 2 "[77]"]
  by (simp add: key_7_11_def SetBytes_def)

text \<open>
  The square is needed. With the modulus 77 and the plaintext 5, which is below the modulus,
  the key with \<open>NSquared = 0\<close> makes the call panic in the reduction modulo zero, and the
  key with \<open>NSquared = 100\<close> makes it return 86, where the formula with \<open>77\<^sup>2\<close> gives 386.
\<close>

theorem EncryptWithNonce_contract_counterexample:
  "SetBytes [5] < N1 pub_77_0
   \<and> EncryptWithNonce pub_77_0 1 [5] = Inl PanicDivisionByZero
   \<and> SetBytes [5] < N1 pub_77_100
   \<and> EncryptWithNonce pub_77_100 1 [5] = Inr 86
   \<and> ((1 + SetBytes [5] * 77) mod (77 * 77)) * (1 ^ 77 mod (77 * 77)) mod (77 * 77) = (386::int)"
  by (simp add: pub_77_0_def pub_77_100_def EncryptWithNonce_def SetBytes_def Cmp_def Mod_def
      Exp_pos)

text \<open>
  C10 (amended). The nonce is not validated: with \<open>NSquared = N\<^sup>2\<close>, any nonce \<open>r \<ge> 0\<close> (zero and
  values beyond the modulus included) and a plaintext below the modulus, the call succeeds
  with the value of the encryption formula at that \<open>r\<close>.
\<close>

theorem EncryptWithNonce_nonce_unchecked:
  assumes "NSquared pub = N1 pub * N1 pub" "0 \<le> r" "SetBytes pt < N1 pub"
  shows "\<exists>c. EncryptWithNonce pub r pt = Inr c
           \<and> c = ((1 + SetBytes pt * N1 pub) mod (N1 pub * N1 pub))
                  * (r ^ nat (N1 pub) mod (N1 pub * N1 pub)) mod (N1 pub * N1 pub)"
  using EncryptWithNonce_in_range[OF assms(1,3)] by simp

theorem EncryptWithNonce_nonce_unchecked_witness:
  "(\<exists>c. EncryptWithNonce (PublicKey key_7_11) 0 [5] = Inr c \<and> c = 0)
   \<and> (\<exists>c. EncryptWithNonce (PublicKey key_7_11) 100 [5] = Inr c \<and> c = 2685)"
  using EncryptWithNonce_nonce_unchecked[of "PublicKey key_7_11" 0 "[5]"]
    EncryptWithNonce_nonce_unchecked[of "PublicKey key_7_11" 100 "[5]"]
  by (simp add: key_7_11_def SetBytes_def)

text \<open>
  The square is needed. With the modulus 77, \<open>NSquared = 0\<close> and the plaintext 5 the call
  does not succeed for the nonces 0, 2 and 100: it panics in the reduction modulo zero. With
  \<open>NSquared = 100\<close> and the nonce 2 it returns 92, where the formula with \<open>77\<^sup>2\<close> gives 4792.
\<close>

theorem EncryptWithNonce_nonce_unchecked_counterexample:
  "SetBytes [5] < N1 pub_77_0
   \<and> EncryptWithNonce pub_77_0 0 [5] = Inl PanicDivisionByZero
   \<and> EncryptWithNonce pub_77_0 2 [5] = Inl PanicDivisionByZero
   \<and> EncryptWithNonce pub_77_0 100 [5] = Inl PanicDivisionByZero
   \<and> SetBytes [5] < N1 pub_77_100
   \<and> EncryptWithNonce pub_77_100 2 [5] = Inr 92
   \<and> ((1 + SetBytes [5] * 77) mod (77 * 77)) * (2 ^ 77 mod (77 * 77)) mod (77 * 77) = (4792::int)"
  by (simp add: pub_77_0_def pub_77_100_def EncryptWithNonce_def SetBytes_def Cmp_def Mod_def
      Exp_pos)

subsection \<open>Round trip\<close>

lemma GenerateKey_public:
  assumes "is_prime p" "is_prime q" "p \<noteq> q" "GenerateKey (Inr p) (Inr q) = Inr k"
  shows "N1 (PublicKey k) = p * q" "NSquared (PublicKey k) = (p * q) * (p * q)"
    "G (PublicKey k) = p * q + 1" "1 < p" "1 < q"
  using GenerateKey_primes[OF assms(1,2,3)] assms(4) assms(1,2) by (auto simp: is_prime_def)

lemma EncryptWithNonce_residue:
  assumes "NSquared pub = N1 pub * N1 pub" "SetBytes pt < N1 pub"
    "EncryptWithNonce pub r pt = Inr c"
  shows "0 \<le> c" "c < N1 pub * N1 pub"
    "c mod (N1 pub * N1 pub) = ((1 + SetBytes pt * N1 pub) * r ^ nat (N1 pub)) mod (N1 pub * N1 pub)"
proof -
  have "0 \<le> SetBytes pt" by (rule SetBytes_nonneg)
  then have nn: "0 < N1 pub * N1 pub" using assms(2) by simp
  have c: "c = ((1 + SetBytes pt * N1 pub) mod (N1 pub * N1 pub))
                * (r ^ nat (N1 pub) mod (N1 pub * N1 pub)) mod (N1 pub * N1 pub)"
    using EncryptWithNonce_in_range[OF assms(1,2), of r] assms(3) by simp
  show "0 \<le> c" "c < N1 pub * N1 pub" using nn by (simp_all add: c)
  show "c mod (N1 pub * N1 pub) = ((1 + SetBytes pt * N1 pub) * r ^ nat (N1 pub)) mod (N1 pub * N1 pub)"
    by (simp add: c mod_mult_eq)
qed

lemma EncryptWithNonce_round_trip:
  assumes "is_prime p" "is_prime q" "p \<noteq> q"
    and "GenerateKey (Inr p) (Inr q) = Inr priv"
    and "SetBytes pt < N1 (PublicKey priv)"
    and "coprime r (N1 (PublicKey priv))"
  shows "\<exists>c. EncryptWithNonce (PublicKey priv) r pt = Inr c
           \<and> Decrypt priv (Bytes c) = Inr (Bytes (SetBytes pt))"
proof -
  note pk = GenerateKey_public[OF assms(1-4)]
  have sq: "NSquared (PublicKey priv) = N1 (PublicKey priv) * N1 (PublicKey priv)"
    by (simp add: pk)
  obtain c where c: "EncryptWithNonce (PublicKey priv) r pt = Inr c"
    using EncryptWithNonce_in_range[OF sq assms(5)] by blast
  note res = EncryptWithNonce_residue[OF sq assms(5) c]
  have sb: "SetBytes (Bytes c) = c" using res(1) by (simp add: SetBytes_Bytes)
  have "Decrypt priv (Bytes c) = Inr (Bytes (SetBytes pt mod (p * q)))"
  proof (rule Decrypt_residue[OF assms(1-4)])
    show "coprime r (p * q)" using assms(6) by (simp add: pk)
    show "SetBytes (Bytes c) < p * q * (p * q)" using res(2) by (simp add: sb pk)
    show "SetBytes (Bytes c) mod (p * q * (p * q))
            = (1 + SetBytes pt * (p * q)) * r ^ nat (p * q) mod (p * q * (p * q))"
      using res(3) by (simp add: sb pk)
  qed
  moreover have "SetBytes pt mod (p * q) = SetBytes pt"
    using assms(5) SetBytes_nonneg[of pt] by (simp add: pk)
  ultimately show ?thesis using c by simp
qed

text \<open>
  C1 (amended). For a key pair that \<open>GenerateKey\<close> builds from two distinct primes, a
  plaintext \<open>m < N\<close> and a nonce that is relatively prime to \<open>N\<close>, encryption succeeds and
  decryption of the ciphertext returns the bytes of \<open>m\<close>.
\<close>

theorem Decrypt_EncryptWithNonce:
  assumes "is_prime p" "is_prime q" "p \<noteq> q"
    and "GenerateKey (Inr p) (Inr q) = Inr priv"
    and "SetBytes pt < N1 (PublicKey priv)"
    and "coprime r (N1 (PublicKey priv))"
  shows "\<exists>c. EncryptWithNonce (PublicKey priv) r pt = Inr c
           \<and> Decrypt priv (Bytes c) = Inr (Bytes (SetBytes pt))"
  using assms by (rule EncryptWithNonce_round_trip)

theorem Decrypt_EncryptWithNonce_witness:
  "EncryptWithNonce (PublicKey key_29_31) 2 [5] = Inr 622000
   \<and> Decrypt key_29_31 (Bytes 622000) = Inr [5]"
proof -
  have "coprime (2::int) 899" by simp
  then have "\<exists>c. EncryptWithNonce (PublicKey key_29_31) 2 [5] = Inr c
           \<and> Decrypt key_29_31 (Bytes c) = Inr (Bytes (SetBytes [5]))"
    using Decrypt_EncryptWithNonce[OF is_prime_small(4) is_prime_small(5) _ key_29_31_generated, of "[5]" 2]
    by (simp add: key_29_31_def SetBytes_def)
  moreover have "EncryptWithNonce (PublicKey key_29_31) 2 [5] = Inr 622000"
    by (simp add: key_29_31_def EncryptWithNonce_def SetBytes_def Cmp_def Mod_pos Exp_pos)
  moreover have "Bytes (SetBytes [5]) = [5]"
    by (simp add: SetBytes_def Bytes_def nat_bytes.simps)
  ultimately show ?thesis by simp
qed

text \<open>
  Without the two conditions the round trip fails. On the key for 29 and 31 the nonce 0
  encrypts the plaintext 5 to 0, and the nonce 29 encrypts it to 48778; these decrypt to 15
  and to 160. On the key for 3 and 3 the fields \<open>Hp\<close>, \<open>Hq\<close> and \<open>Pinvq\<close> are nil and
  decryption panics.
\<close>

theorem Decrypt_EncryptWithNonce_counterexample:
  "is_prime 29 \<and> is_prime 31
   \<and> GenerateKey (Inr 29) (Inr 31) = Inr key_29_31
   \<and> SetBytes [5] < N1 (PublicKey key_29_31)
   \<and> EncryptWithNonce (PublicKey key_29_31) 0 [5] = Inr 0
   \<and> Decrypt key_29_31 (Bytes 0) = Inr [15]
   \<and> Decrypt key_29_31 (Bytes 0) \<noteq> Inr (Bytes (SetBytes [5]))
   \<and> EncryptWithNonce (PublicKey key_29_31) 29 [5] = Inr 48778
   \<and> Decrypt key_29_31 (Bytes 48778) = Inr [160]
   \<and> is_prime 3
   \<and> GenerateKey (Inr 3) (Inr 3) = Inr key_3_3
   \<and> SetBytes [1] < N1 (PublicKey key_3_3)
   \<and> EncryptWithNonce (PublicKey key_3_3) 1 [1] = Inr 10
   \<and> Decrypt key_3_3 (Bytes 10) = Inl PanicNilDereference"
proof -
  have "EncryptWithNonce (PublicKey key_29_31) 0 [5] = Inr 0"
    by (simp add: key_29_31_def EncryptWithNonce_def SetBytes_def Cmp_def Mod_pos Exp_pos)
  moreover have "Bytes 0 = []" by (simp add: Bytes_def nat_bytes.simps)
  moreover have "Bytes (SetBytes [5]) = [5]"
    by (simp add: SetBytes_def Bytes_def nat_bytes.simps)
  moreover have "EncryptWithNonce (PublicKey key_3_3) 1 [1] = Inr 10"
    by (simp add: key_3_3_def EncryptWithNonce_def SetBytes_def Cmp_def Mod_pos Exp_pos)
  moreover have "Decrypt key_3_3 (Bytes 10) = Inl PanicNilDereference"
    by (rule Decrypt_key_3_3_panics) (simp add: SetBytes_Bytes)
  moreover have "SetBytes [5] < N1 (PublicKey key_29_31)" "SetBytes [1] < N1 (PublicKey key_3_3)"
    by (simp_all add: SetBytes_def key_29_31_def key_3_3_def)
  ultimately show ?thesis
    using is_prime_small key_29_31_generated key_3_3_generated Decrypt_key_29_31_zero
      EncryptWithNonce_key_29_31_multiple Decrypt_key_29_31_values(2)
    by simp
qed

subsection \<open>Homomorphic operations\<close>

lemma residue_mult:
  fixes n :: int
  assumes "a mod (n * n) = ((1 + m1 * n) * s1 ^ k) mod (n * n)"
    and "b mod (n * n) = ((1 + m2 * n) * s2 ^ k) mod (n * n)"
  shows "(a * b) mod (n * n) = ((1 + (m1 + m2) * n) * (s1 * s2) ^ k) mod (n * n)"
proof -
  have "(a * b) mod (n * n) = ((a mod (n * n)) * (b mod (n * n))) mod (n * n)"
    by (simp only: mod_mult_eq)
  also have "\<dots> = (((1 + m1 * n) * s1 ^ k) * ((1 + m2 * n) * s2 ^ k)) mod (n * n)"
    by (simp only: assms mod_mult_eq)
  also have "((1 + m1 * n) * s1 ^ k) * ((1 + m2 * n) * s2 ^ k)
      = (1 + (m1 + m2) * n) * (s1 * s2) ^ k + (n * n) * (m1 * m2 * (s1 * s2) ^ k)"
    by (simp add: algebra_simps power_mult_distrib)
  also have "\<dots> mod (n * n) = ((1 + (m1 + m2) * n) * (s1 * s2) ^ k) mod (n * n)"
    by (simp only: mod_mult_self2)
  finally show ?thesis .
qed

lemma residue_power:
  fixes n :: int
  assumes "a mod (n * n) = ((1 + m * n) * s ^ k) mod (n * n)"
  shows "(a ^ j) mod (n * n) = ((1 + (int j * m) * n) * (s ^ j) ^ k) mod (n * n)"
proof (induction j)
  case 0
  show ?case by simp
next
  case (Suc j)
  have "(a * a ^ j) mod (n * n) = ((1 + (m + int j * m) * n) * (s * s ^ j) ^ k) mod (n * n)"
    using assms Suc.IH by (rule residue_mult)
  moreover have "m + int j * m = int (Suc j) * m" by (simp add: algebra_simps)
  ultimately show ?case by (simp only: power_Suc)
qed

lemma generator_power_residue:
  fixes n :: int
  shows "((n + 1) ^ j) mod (n * n) = ((1 + int j * n) * 1 ^ k) mod (n * n)"
  using linear_power_mod_square[of n 1 j] by (simp add: add.commute)

lemma AddCipher_value:
  assumes "0 < NSquared pub"
  shows "AddCipher pub a b = Inr (Bytes ((SetBytes a * SetBytes b) mod NSquared pub))"
  using assms by (simp add: AddCipher_def Let_def Mod_pos)

lemma Add_value:
  assumes "0 < NSquared pub"
  shows "Add pub a kb = Inr (Bytes ((SetBytes a * G pub ^ nat (SetBytes kb)) mod NSquared pub))"
  using assms SetBytes_nonneg[of kb]
  by (simp add: Add_def Let_def Mod_pos Exp_pos mod_mult_right_eq)

lemma Mul_value:
  assumes "0 < NSquared pub"
  shows "Mul pub a kb = Inr (Bytes (SetBytes a ^ nat (SetBytes kb) mod NSquared pub))"
  using assms SetBytes_nonneg[of kb]
  by (simp add: Mul_def Let_def Exp_pos)

lemma Bytes_small: "Bytes 0 = []" "Bytes 5 = [5]" "Bytes 8 = [8]" "Bytes 10 = [10]"
  "Bytes 14 = [14]" "Bytes 15 = [15]"
  by (simp_all add: Bytes_def nat_bytes.simps)

lemma EncryptWithNonce_pub_77_100:
  "EncryptWithNonce pub_77_100 1 [5] = Inr 86" "EncryptWithNonce pub_77_100 1 [9] = Inr 94"
  by (simp_all add: pub_77_100_def EncryptWithNonce_def SetBytes_def Cmp_def Mod_pos Exp_pos)

lemma SetBytes_small: "SetBytes [] = 0" "SetBytes [1] = 1" "SetBytes [2] = 2" "SetBytes [3] = 3"
  "SetBytes [5] = 5" "SetBytes [9] = 9"
  by (simp_all add: SetBytes_def)

lemma AddCipher_decrypts:
  assumes "is_prime p" "is_prime q" "p \<noteq> q"
    and "GenerateKey (Inr p) (Inr q) = Inr priv"
    and "SetBytes pt1 < N1 (PublicKey priv)" "SetBytes pt2 < N1 (PublicKey priv)"
    and "coprime r1 (N1 (PublicKey priv))" "coprime r2 (N1 (PublicKey priv))"
  shows "\<exists>c1 c2. EncryptWithNonce (PublicKey priv) r1 pt1 = Inr c1
           \<and> EncryptWithNonce (PublicKey priv) r2 pt2 = Inr c2
           \<and> AddCipher (PublicKey priv) (Bytes c1) (Bytes c2)
               = Inr (Bytes ((c1 * c2) mod NSquared (PublicKey priv)))
           \<and> Decrypt priv (Bytes ((c1 * c2) mod NSquared (PublicKey priv)))
               = Inr (Bytes ((SetBytes pt1 + SetBytes pt2) mod N1 (PublicKey priv)))"
proof -
  note pk = GenerateKey_public[OF assms(1-4)]
  have sq: "NSquared (PublicKey priv) = N1 (PublicKey priv) * N1 (PublicKey priv)"
    by (simp add: pk)
  have nn: "0 < p * q * (p * q)" using pk(4,5) by simp
  obtain c1 where c1: "EncryptWithNonce (PublicKey priv) r1 pt1 = Inr c1"
    using EncryptWithNonce_in_range[OF sq assms(5)] by blast
  obtain c2 where c2: "EncryptWithNonce (PublicKey priv) r2 pt2 = Inr c2"
    using EncryptWithNonce_in_range[OF sq assms(6)] by blast
  note res1 = EncryptWithNonce_residue[OF sq assms(5) c1]
  note res2 = EncryptWithNonce_residue[OF sq assms(6) c2]
  let ?c = "(c1 * c2) mod (p * q * (p * q))"
  have add: "AddCipher (PublicKey priv) (Bytes c1) (Bytes c2) = Inr (Bytes ?c)"
    using res1(1) res2(1) nn by (simp add: AddCipher_value SetBytes_Bytes pk)
  have c0: "0 \<le> ?c" "?c < p * q * (p * q)" using nn by simp_all
  have "Decrypt priv (Bytes ?c) = Inr (Bytes ((SetBytes pt1 + SetBytes pt2) mod (p * q)))"
  proof (rule Decrypt_residue[OF assms(1-4)])
    show "coprime (r1 * r2) (p * q)" using assms(7,8) by (simp add: pk)
    show "SetBytes (Bytes ?c) < p * q * (p * q)" using c0 by (simp add: SetBytes_Bytes)
    have "(c1 * c2) mod (p * q * (p * q))
        = ((1 + (SetBytes pt1 + SetBytes pt2) * (p * q)) * (r1 * r2) ^ nat (p * q)) mod (p * q * (p * q))"
      using res1(3) res2(3) unfolding pk by (rule residue_mult)
    then show "SetBytes (Bytes ?c) mod (p * q * (p * q))
        = ((1 + (SetBytes pt1 + SetBytes pt2) * (p * q)) * (r1 * r2) ^ nat (p * q)) mod (p * q * (p * q))"
      using c0 by (simp add: SetBytes_Bytes)
  qed
  with add c1 c2 show ?thesis by (simp add: pk)
qed

text \<open>
  C4 (amended). For a key pair whose \<open>NSquared\<close> is the square of the modulus (every pair
  that \<open>GenerateKey\<close> returns is one), plaintexts below \<open>N\<close> and any two nonces: both
  encryptions succeed and \<open>AddCipher\<close> of the two ciphertexts is their product modulo
  \<open>N\<^sup>2\<close>. If moreover the pair was built by \<open>GenerateKey\<close> from two distinct primes and both
  nonces are relatively prime to \<open>N\<close>, the result decrypts to \<open>(m1 + m2) mod N\<close>.
\<close>

theorem Decrypt_AddCipher:
  assumes "NSquared (PublicKey priv) = N1 (PublicKey priv) * N1 (PublicKey priv)"
    and "SetBytes pt1 < N1 (PublicKey priv)" "SetBytes pt2 < N1 (PublicKey priv)"
  shows "\<exists>c1 c2. EncryptWithNonce (PublicKey priv) r1 pt1 = Inr c1
           \<and> EncryptWithNonce (PublicKey priv) r2 pt2 = Inr c2
           \<and> AddCipher (PublicKey priv) (Bytes c1) (Bytes c2)
               = Inr (Bytes ((c1 * c2) mod (N1 (PublicKey priv) * N1 (PublicKey priv))))
           \<and> (is_prime (P priv) \<and> is_prime (Q priv) \<and> P priv \<noteq> Q priv
               \<and> GenerateKey (Inr (P priv)) (Inr (Q priv)) = Inr priv
               \<and> coprime r1 (N1 (PublicKey priv)) \<and> coprime r2 (N1 (PublicKey priv))
              \<longrightarrow> Decrypt priv (Bytes ((c1 * c2) mod (N1 (PublicKey priv) * N1 (PublicKey priv))))
                    = Inr (Bytes ((SetBytes pt1 + SetBytes pt2) mod N1 (PublicKey priv))))"
proof -
  obtain c1 where c1: "EncryptWithNonce (PublicKey priv) r1 pt1 = Inr c1"
    using EncryptWithNonce_in_range[OF assms(1,2)] by blast
  obtain c2 where c2: "EncryptWithNonce (PublicKey priv) r2 pt2 = Inr c2"
    using EncryptWithNonce_in_range[OF assms(1,3)] by blast
  have "0 < N1 (PublicKey priv)" using assms(2) SetBytes_nonneg[of pt1] by simp
  then have nn: "0 < NSquared (PublicKey priv)" by (simp add: assms(1))
  have add: "AddCipher (PublicKey priv) (Bytes c1) (Bytes c2)
      = Inr (Bytes ((c1 * c2) mod (N1 (PublicKey priv) * N1 (PublicKey priv))))"
    using EncryptWithNonce_residue(1)[OF assms(1,2) c1] EncryptWithNonce_residue(1)[OF assms(1,3) c2]
    by (simp add: AddCipher_value[OF nn] SetBytes_Bytes assms(1))
  have dec: "Decrypt priv (Bytes ((c1 * c2) mod (N1 (PublicKey priv) * N1 (PublicKey priv))))
      = Inr (Bytes ((SetBytes pt1 + SetBytes pt2) mod N1 (PublicKey priv)))"
    if "is_prime (P priv)" "is_prime (Q priv)" "P priv \<noteq> Q priv"
      "GenerateKey (Inr (P priv)) (Inr (Q priv)) = Inr priv"
      "coprime r1 (N1 (PublicKey priv))" "coprime r2 (N1 (PublicKey priv))"
    using AddCipher_decrypts[OF that(1-4) assms(2,3) that(5,6)] c1 c2 by (simp add: assms(1))
  show ?thesis using c1 c2 add dec by simp
qed

theorem Decrypt_AddCipher_witness:
  "\<exists>c1 c2. EncryptWithNonce (PublicKey key_7_11) 2 [5] = Inr c1
      \<and> EncryptWithNonce (PublicKey key_7_11) 3 [9] = Inr c2
      \<and> AddCipher (PublicKey key_7_11) (Bytes c1) (Bytes c2) = Inr (Bytes ((c1 * c2) mod (77 * 77)))
      \<and> Decrypt key_7_11 (Bytes ((c1 * c2) mod (77 * 77))) = Inr [14]"
proof -
  have "coprime (2::int) 77" "coprime (3::int) 77" by code_simp+
  then show ?thesis
    using Decrypt_AddCipher[of key_7_11 "[5]" "[9]" 2 3] is_prime_small(2,3) key_7_11_generated
    by (simp add: key_7_11_def SetBytes_small Bytes_small)
qed

text \<open>
  Without the two conditions the sum is not recovered. On the key for 29 and 31, with the
  plaintexts 5 and 9, the nonces 0 and 1 give the product 0, which decrypts to 15, and the
  nonces 29 and 1 give the product 309488, which decrypts to 479; the sum is 14. On the key
  for 3 and 3 decryption of the product panics.
  On the key with the modulus 77 and \<open>NSquared = 100\<close> the ciphertexts 86 and 94 are
  combined to 84, where the product modulo \<open>77\<^sup>2\<close> is 2155.
\<close>

theorem Decrypt_AddCipher_counterexample:
  "is_prime 29 \<and> is_prime 31
   \<and> GenerateKey (Inr 29) (Inr 31) = Inr key_29_31
   \<and> SetBytes [5] < N1 (PublicKey key_29_31) \<and> SetBytes [9] < N1 (PublicKey key_29_31)
   \<and> EncryptWithNonce (PublicKey key_29_31) 0 [5] = Inr 0
   \<and> EncryptWithNonce (PublicKey key_29_31) 1 [9] = Inr 8092
   \<and> AddCipher (PublicKey key_29_31) (Bytes 0) (Bytes 8092) = Inr []
   \<and> Decrypt key_29_31 [] = Inr [15]
   \<and> Bytes ((SetBytes [5] + SetBytes [9]) mod N1 (PublicKey key_29_31)) = [14]
   \<and> EncryptWithNonce (PublicKey key_29_31) 29 [5] = Inr 48778
   \<and> AddCipher (PublicKey key_29_31) (Bytes 48778) (Bytes 8092) = Inr (Bytes 309488)
   \<and> Decrypt key_29_31 (Bytes 309488) = Inr [1, 223]
   \<and> is_prime 3
   \<and> GenerateKey (Inr 3) (Inr 3) = Inr key_3_3
   \<and> EncryptWithNonce (PublicKey key_3_3) 1 [1] = Inr 10
   \<and> EncryptWithNonce (PublicKey key_3_3) 1 [2] = Inr 19
   \<and> AddCipher (PublicKey key_3_3) (Bytes 10) (Bytes 19) = Inr (Bytes 28)
   \<and> Decrypt key_3_3 (Bytes 28) = Inl PanicNilDereference
   \<and> SetBytes [5] < N1 pub_77_100 \<and> SetBytes [9] < N1 pub_77_100
   \<and> EncryptWithNonce pub_77_100 1 [5] = Inr 86
   \<and> EncryptWithNonce pub_77_100 1 [9] = Inr 94
   \<and> AddCipher pub_77_100 (Bytes 86) (Bytes 94) = Inr (Bytes 84)
   \<and> (86 * 94) mod (N1 pub_77_100 * N1 pub_77_100) = 2155"
proof -
  have "EncryptWithNonce (PublicKey key_29_31) 0 [5] = Inr 0"
    "EncryptWithNonce (PublicKey key_29_31) 1 [9] = Inr 8092"
    by (simp_all add: key_29_31_def EncryptWithNonce_def SetBytes_def Cmp_def Mod_pos Exp_pos)
  moreover have "AddCipher (PublicKey key_29_31) (Bytes 0) (Bytes 8092) = Inr []"
    by (simp add: AddCipher_value key_29_31_def SetBytes_Bytes Bytes_small(1) SetBytes_small(1))
  moreover have "AddCipher (PublicKey key_29_31) (Bytes 48778) (Bytes 8092) = Inr (Bytes 309488)"
    by (simp add: AddCipher_value key_29_31_def SetBytes_Bytes)
  moreover have "Bytes ((SetBytes [5] + SetBytes [9]) mod N1 (PublicKey key_29_31)) = [14]"
    by (simp add: SetBytes_small key_29_31_def Bytes_small)
  moreover have "EncryptWithNonce (PublicKey key_3_3) 1 [1] = Inr 10"
    "EncryptWithNonce (PublicKey key_3_3) 1 [2] = Inr 19"
    by (simp_all add: key_3_3_def EncryptWithNonce_def SetBytes_def Cmp_def Mod_pos Exp_pos)
  moreover have "AddCipher (PublicKey key_3_3) (Bytes 10) (Bytes 19) = Inr (Bytes 28)"
    by (simp add: AddCipher_value key_3_3_def SetBytes_Bytes)
  moreover have "Decrypt key_3_3 (Bytes 28) = Inl PanicNilDereference"
    by (rule Decrypt_key_3_3_panics) (simp add: SetBytes_Bytes)
  moreover have "SetBytes [5] < N1 (PublicKey key_29_31)" "SetBytes [9] < N1 (PublicKey key_29_31)"
    by (simp_all add: SetBytes_def key_29_31_def)
  moreover have "SetBytes [5] < N1 pub_77_100" "SetBytes [9] < N1 pub_77_100"
    "(86 * 94) mod (N1 pub_77_100 * N1 pub_77_100) = 2155"
    by (simp_all add: SetBytes_def pub_77_100_def)
  moreover have "AddCipher pub_77_100 (Bytes 86) (Bytes 94) = Inr (Bytes 84)"
    by (simp add: AddCipher_value pub_77_100_def SetBytes_Bytes)
  moreover note EncryptWithNonce_pub_77_100
  ultimately show ?thesis
    using is_prime_small key_29_31_generated key_3_3_generated Decrypt_key_29_31_zero
      EncryptWithNonce_key_29_31_multiple Decrypt_key_29_31_values(3)
    by simp
qed

lemma Add_decrypts:
  assumes "is_prime p" "is_prime q" "p \<noteq> q"
    and "GenerateKey (Inr p) (Inr q) = Inr priv"
    and "SetBytes pt < N1 (PublicKey priv)"
    and "coprime r (N1 (PublicKey priv))"
  shows "\<exists>c. EncryptWithNonce (PublicKey priv) r pt = Inr c
           \<and> Add (PublicKey priv) (Bytes c) kb
               = Inr (Bytes ((c * G (PublicKey priv) ^ nat (SetBytes kb)) mod NSquared (PublicKey priv)))
           \<and> Decrypt priv (Bytes ((c * G (PublicKey priv) ^ nat (SetBytes kb)) mod NSquared (PublicKey priv)))
               = Inr (Bytes ((SetBytes pt + SetBytes kb) mod N1 (PublicKey priv)))"
proof -
  note pk = GenerateKey_public[OF assms(1-4)]
  have sq: "NSquared (PublicKey priv) = N1 (PublicKey priv) * N1 (PublicKey priv)"
    by (simp add: pk)
  have nn: "0 < p * q * (p * q)" using pk(4,5) by simp
  obtain c where c: "EncryptWithNonce (PublicKey priv) r pt = Inr c"
    using EncryptWithNonce_in_range[OF sq assms(5)] by blast
  note res = EncryptWithNonce_residue[OF sq assms(5) c]
  define j where "j = nat (SetBytes kb)"
  have j: "int j = SetBytes kb" using SetBytes_nonneg[of kb] by (simp add: j_def)
  let ?c = "(c * (p * q + 1) ^ j) mod (p * q * (p * q))"
  have add: "Add (PublicKey priv) (Bytes c) kb = Inr (Bytes ?c)"
    using res(1) nn by (simp add: Add_value SetBytes_Bytes pk j_def)
  have c0: "0 \<le> ?c" "?c < p * q * (p * q)" using nn by simp_all
  have "Decrypt priv (Bytes ?c) = Inr (Bytes ((SetBytes pt + int j) mod (p * q)))"
  proof (rule Decrypt_residue[OF assms(1-4)])
    show "coprime (r * 1) (p * q)" using assms(6) by (simp add: pk)
    show "SetBytes (Bytes ?c) < p * q * (p * q)" using c0 by (simp add: SetBytes_Bytes)
    have "(c * (p * q + 1) ^ j) mod (p * q * (p * q))
        = ((1 + (SetBytes pt + int j) * (p * q)) * (r * 1) ^ nat (p * q)) mod (p * q * (p * q))"
      using res(3) generator_power_residue[of "p * q" j "nat (p * q)"] unfolding pk
      by (rule residue_mult)
    then show "SetBytes (Bytes ?c) mod (p * q * (p * q))
        = ((1 + (SetBytes pt + int j) * (p * q)) * (r * 1) ^ nat (p * q)) mod (p * q * (p * q))"
      using c0 by (simp add: SetBytes_Bytes)
  qed
  with add c show ?thesis using SetBytes_nonneg[of kb] by (simp add: pk j_def)
qed

text \<open>
  C5 (amended). For a key pair whose \<open>NSquared\<close> is the square of the modulus (every pair
  that \<open>GenerateKey\<close> returns is one), a plaintext below \<open>N\<close>, any nonce and any constant
  \<open>k \<ge> 0\<close> given as bytes: encryption succeeds and \<open>Add\<close> of the ciphertext and the
  constant is \<open>cipher * G\<^sup>k mod N\<^sup>2\<close>. If moreover the pair was built by \<open>GenerateKey\<close> from
  two distinct primes and the nonce is relatively prime to \<open>N\<close>, the result decrypts to
  \<open>(m + k) mod N\<close>.
\<close>

theorem Decrypt_Add:
  assumes "NSquared (PublicKey priv) = N1 (PublicKey priv) * N1 (PublicKey priv)"
    and "SetBytes pt < N1 (PublicKey priv)"
  shows "\<exists>c. EncryptWithNonce (PublicKey priv) r pt = Inr c
           \<and> Add (PublicKey priv) (Bytes c) kb
               = Inr (Bytes ((c * G (PublicKey priv) ^ nat (SetBytes kb))
                              mod (N1 (PublicKey priv) * N1 (PublicKey priv))))
           \<and> (is_prime (P priv) \<and> is_prime (Q priv) \<and> P priv \<noteq> Q priv
               \<and> GenerateKey (Inr (P priv)) (Inr (Q priv)) = Inr priv
               \<and> coprime r (N1 (PublicKey priv))
              \<longrightarrow> Decrypt priv (Bytes ((c * G (PublicKey priv) ^ nat (SetBytes kb))
                                       mod (N1 (PublicKey priv) * N1 (PublicKey priv))))
                    = Inr (Bytes ((SetBytes pt + SetBytes kb) mod N1 (PublicKey priv))))"
proof -
  obtain c where c: "EncryptWithNonce (PublicKey priv) r pt = Inr c"
    using EncryptWithNonce_in_range[OF assms(1,2)] by blast
  have "0 < N1 (PublicKey priv)" using assms(2) SetBytes_nonneg[of pt] by simp
  then have nn: "0 < NSquared (PublicKey priv)" by (simp add: assms(1))
  have add: "Add (PublicKey priv) (Bytes c) kb
      = Inr (Bytes ((c * G (PublicKey priv) ^ nat (SetBytes kb))
                     mod (N1 (PublicKey priv) * N1 (PublicKey priv))))"
    using EncryptWithNonce_residue(1)[OF assms(1,2) c]
    by (simp add: Add_value[OF nn] SetBytes_Bytes assms(1))
  have dec: "Decrypt priv (Bytes ((c * G (PublicKey priv) ^ nat (SetBytes kb))
                                   mod (N1 (PublicKey priv) * N1 (PublicKey priv))))
      = Inr (Bytes ((SetBytes pt + SetBytes kb) mod N1 (PublicKey priv)))"
    if "is_prime (P priv)" "is_prime (Q priv)" "P priv \<noteq> Q priv"
      "GenerateKey (Inr (P priv)) (Inr (Q priv)) = Inr priv"
      "coprime r (N1 (PublicKey priv))"
    using Add_decrypts[OF that(1-4) assms(2) that(5), of kb] c by (simp add: assms(1))
  show ?thesis using c add dec by simp
qed

theorem Decrypt_Add_witness:
  "\<exists>c. EncryptWithNonce (PublicKey key_7_11) 2 [5] = Inr c
      \<and> Add (PublicKey key_7_11) (Bytes c) [3] = Inr (Bytes ((c * 78 ^ 3) mod (77 * 77)))
      \<and> Decrypt key_7_11 (Bytes ((c * 78 ^ 3) mod (77 * 77))) = Inr [8]"
proof -
  have "coprime (2::int) 77" by code_simp
  then show ?thesis
    using Decrypt_Add[of key_7_11 "[5]" 2 "[3]"] is_prime_small(2,3) key_7_11_generated
    by (simp add: key_7_11_def SetBytes_small Bytes_small)
qed

text \<open>
  Without the two conditions the sum is not recovered. On the key for 29 and 31, with the
  plaintext 5 and the constant 3, the nonce 0 leads to the result 0, which decrypts to 15,
  and the nonce 29 to 674482, which decrypts to 566; the sum is 8. On the key for 3 and 3
  decryption of the result panics.
  On the key with the modulus 77 and \<open>NSquared = 100\<close> the ciphertext 86 and the constant
  3 give 72, where \<open>86 * 78\<^sup>3\<close> modulo \<open>77\<^sup>2\<close> is 2165.
\<close>

theorem Decrypt_Add_counterexample:
  "is_prime 29 \<and> is_prime 31
   \<and> GenerateKey (Inr 29) (Inr 31) = Inr key_29_31
   \<and> SetBytes [5] < N1 (PublicKey key_29_31)
   \<and> EncryptWithNonce (PublicKey key_29_31) 0 [5] = Inr 0
   \<and> Add (PublicKey key_29_31) (Bytes 0) [3] = Inr []
   \<and> Decrypt key_29_31 [] = Inr [15]
   \<and> Bytes ((SetBytes [5] + SetBytes [3]) mod N1 (PublicKey key_29_31)) = [8]
   \<and> EncryptWithNonce (PublicKey key_29_31) 29 [5] = Inr 48778
   \<and> Add (PublicKey key_29_31) (Bytes 48778) [3] = Inr (Bytes 674482)
   \<and> Decrypt key_29_31 (Bytes 674482) = Inr [2, 54]
   \<and> is_prime 3
   \<and> GenerateKey (Inr 3) (Inr 3) = Inr key_3_3
   \<and> EncryptWithNonce (PublicKey key_3_3) 1 [1] = Inr 10
   \<and> Add (PublicKey key_3_3) (Bytes 10) [2] = Inr (Bytes 28)
   \<and> Decrypt key_3_3 (Bytes 28) = Inl PanicNilDereference
   \<and> SetBytes [5] < N1 pub_77_100
   \<and> EncryptWithNonce pub_77_100 1 [5] = Inr 86
   \<and> Add pub_77_100 (Bytes 86) [3] = Inr (Bytes 72)
   \<and> (86 * G pub_77_100 ^ 3) mod (N1 pub_77_100 * N1 pub_77_100) = 2165"
proof -
  have "EncryptWithNonce (PublicKey key_29_31) 0 [5] = Inr 0"
    by (simp add: key_29_31_def EncryptWithNonce_def SetBytes_def Cmp_def Mod_pos Exp_pos)
  moreover have "Add (PublicKey key_29_31) (Bytes 0) [3] = Inr []"
    by (simp add: Add_value key_29_31_def SetBytes_Bytes Bytes_small(1) SetBytes_small)
  moreover have "Add (PublicKey key_29_31) (Bytes 48778) [3] = Inr (Bytes 674482)"
    by (simp add: Add_value key_29_31_def SetBytes_Bytes SetBytes_small)
  moreover have "Bytes ((SetBytes [5] + SetBytes [3]) mod N1 (PublicKey key_29_31)) = [8]"
    by (simp add: SetBytes_small key_29_31_def Bytes_small)
  moreover have "EncryptWithNonce (PublicKey key_3_3) 1 [1] = Inr 10"
    by (simp add: key_3_3_def EncryptWithNonce_def SetBytes_def Cmp_def Mod_pos Exp_pos)
  moreover have "Add (PublicKey key_3_3) (Bytes 10) [2] = Inr (Bytes 28)"
    by (simp add: Add_value key_3_3_def SetBytes_Bytes SetBytes_small)
  moreover have "Decrypt key_3_3 (Bytes 28) = Inl PanicNilDereference"
    by (rule Decrypt_key_3_3_panics) (simp add: SetBytes_Bytes)
  moreover have "SetBytes [5] < N1 (PublicKey key_29_31)"
    by (simp add: SetBytes_def key_29_31_def)
  moreover have "SetBytes [5] < N1 pub_77_100"
    "(86 * G pub_77_100 ^ 3) mod (N1 pub_77_100 * N1 pub_77_100) = 2165"
    by (simp_all add: SetBytes_def pub_77_100_def)
  moreover have "Add pub_77_100 (Bytes 86) [3] = Inr (Bytes 72)"
    by (simp add: Add_value pub_77_100_def SetBytes_Bytes SetBytes_small)
  moreover note EncryptWithNonce_pub_77_100(1)
  ultimately show ?thesis
    using is_prime_small key_29_31_generated key_3_3_generated Decrypt_key_29_31_zero
      EncryptWithNonce_key_29_31_multiple Decrypt_key_29_31_values(4)
    by simp
qed

lemma Mul_decrypts:
  assumes "is_prime p" "is_prime q" "p \<noteq> q"
    and "GenerateKey (Inr p) (Inr q) = Inr priv"
    and "SetBytes pt < N1 (PublicKey priv)"
    and "coprime r (N1 (PublicKey priv))"
  shows "\<exists>c. EncryptWithNonce (PublicKey priv) r pt = Inr c
           \<and> Mul (PublicKey priv) (Bytes c) kb
               = Inr (Bytes (c ^ nat (SetBytes kb) mod NSquared (PublicKey priv)))
           \<and> Decrypt priv (Bytes (c ^ nat (SetBytes kb) mod NSquared (PublicKey priv)))
               = Inr (Bytes ((SetBytes pt * SetBytes kb) mod N1 (PublicKey priv)))"
proof -
  note pk = GenerateKey_public[OF assms(1-4)]
  have sq: "NSquared (PublicKey priv) = N1 (PublicKey priv) * N1 (PublicKey priv)"
    by (simp add: pk)
  have nn: "0 < p * q * (p * q)" using pk(4,5) by simp
  obtain c where c: "EncryptWithNonce (PublicKey priv) r pt = Inr c"
    using EncryptWithNonce_in_range[OF sq assms(5)] by blast
  note res = EncryptWithNonce_residue[OF sq assms(5) c]
  define j where "j = nat (SetBytes kb)"
  have j: "int j = SetBytes kb" using SetBytes_nonneg[of kb] by (simp add: j_def)
  let ?c = "c ^ j mod (p * q * (p * q))"
  have mul: "Mul (PublicKey priv) (Bytes c) kb = Inr (Bytes ?c)"
    using res(1) nn by (simp add: Mul_value SetBytes_Bytes pk j_def)
  have c0: "0 \<le> ?c" "?c < p * q * (p * q)" using nn by simp_all
  have "Decrypt priv (Bytes ?c) = Inr (Bytes ((int j * SetBytes pt) mod (p * q)))"
  proof (rule Decrypt_residue[OF assms(1-4)])
    show "coprime (r ^ j) (p * q)" using assms(6) by (simp add: pk)
    show "SetBytes (Bytes ?c) < p * q * (p * q)" using c0 by (simp add: SetBytes_Bytes)
    have "c ^ j mod (p * q * (p * q))
        = ((1 + (int j * SetBytes pt) * (p * q)) * (r ^ j) ^ nat (p * q)) mod (p * q * (p * q))"
      using res(3) unfolding pk by (rule residue_power)
    then show "SetBytes (Bytes ?c) mod (p * q * (p * q))
        = ((1 + (int j * SetBytes pt) * (p * q)) * (r ^ j) ^ nat (p * q)) mod (p * q * (p * q))"
      using c0 by (simp add: SetBytes_Bytes)
  qed
  with mul c show ?thesis using SetBytes_nonneg[of kb] by (simp add: pk j_def mult.commute)
qed

text \<open>
  C6 (amended). For a key pair whose \<open>NSquared\<close> is the square of the modulus (every pair
  that \<open>GenerateKey\<close> returns is one), a plaintext below \<open>N\<close>, any nonce and any constant
  \<open>k \<ge> 0\<close> given as bytes: encryption succeeds and \<open>Mul\<close> of the ciphertext and the
  constant is \<open>cipher\<^sup>k mod N\<^sup>2\<close>. If moreover the pair was built by \<open>GenerateKey\<close> from two
  distinct primes and the nonce is relatively prime to \<open>N\<close>, the result decrypts to
  \<open>(m * k) mod N\<close>.
\<close>

theorem Decrypt_Mul:
  assumes "NSquared (PublicKey priv) = N1 (PublicKey priv) * N1 (PublicKey priv)"
    and "SetBytes pt < N1 (PublicKey priv)"
  shows "\<exists>c. EncryptWithNonce (PublicKey priv) r pt = Inr c
           \<and> Mul (PublicKey priv) (Bytes c) kb
               = Inr (Bytes (c ^ nat (SetBytes kb) mod (N1 (PublicKey priv) * N1 (PublicKey priv))))
           \<and> (is_prime (P priv) \<and> is_prime (Q priv) \<and> P priv \<noteq> Q priv
               \<and> GenerateKey (Inr (P priv)) (Inr (Q priv)) = Inr priv
               \<and> coprime r (N1 (PublicKey priv))
              \<longrightarrow> Decrypt priv (Bytes (c ^ nat (SetBytes kb)
                                       mod (N1 (PublicKey priv) * N1 (PublicKey priv))))
                    = Inr (Bytes ((SetBytes pt * SetBytes kb) mod N1 (PublicKey priv))))"
proof -
  obtain c where c: "EncryptWithNonce (PublicKey priv) r pt = Inr c"
    using EncryptWithNonce_in_range[OF assms(1,2)] by blast
  have "0 < N1 (PublicKey priv)" using assms(2) SetBytes_nonneg[of pt] by simp
  then have nn: "0 < NSquared (PublicKey priv)" by (simp add: assms(1))
  have mul: "Mul (PublicKey priv) (Bytes c) kb
      = Inr (Bytes (c ^ nat (SetBytes kb) mod (N1 (PublicKey priv) * N1 (PublicKey priv))))"
    using EncryptWithNonce_residue(1)[OF assms(1,2) c]
    by (simp add: Mul_value[OF nn] SetBytes_Bytes assms(1))
  have dec: "Decrypt priv (Bytes (c ^ nat (SetBytes kb)
                                   mod (N1 (PublicKey priv) * N1 (PublicKey priv))))
      = Inr (Bytes ((SetBytes pt * SetBytes kb) mod N1 (PublicKey priv)))"
    if "is_prime (P priv)" "is_prime (Q priv)" "P priv \<noteq> Q priv"
      "GenerateKey (Inr (P priv)) (Inr (Q priv)) = Inr priv"
      "coprime r (N1 (PublicKey priv))"
    using Mul_decrypts[OF that(1-4) assms(2) that(5), of kb] c by (simp add: assms(1))
  show ?thesis using c mul dec by simp
qed

theorem Decrypt_Mul_witness:
  "\<exists>c. EncryptWithNonce (PublicKey key_7_11) 2 [5] = Inr c
      \<and> Mul (PublicKey key_7_11) (Bytes c) [3] = Inr (Bytes (c ^ 3 mod (77 * 77)))
      \<and> Decrypt key_7_11 (Bytes (c ^ 3 mod (77 * 77))) = Inr [15]"
proof -
  have "coprime (2::int) 77" by code_simp
  then show ?thesis
    using Decrypt_Mul[of key_7_11 "[5]" 2 "[3]"] is_prime_small(2,3) key_7_11_generated
    by (simp add: key_7_11_def SetBytes_small Bytes_small)
qed

text \<open>
  Without the two conditions the product is not recovered. On the key for 29 and 31, with
  the plaintext 5 and the constant 2, the nonce 0 leads to the result 0, which decrypts to
  15, and the nonce 29 to 757741, which decrypts to 537; the product is 10. On the key for 3
  and 3 decryption of the result panics.
  On the key with the modulus 77 and \<open>NSquared = 100\<close> the ciphertext 86 and the constant
  2 give 96, where \<open>86\<^sup>2\<close> modulo \<open>77\<^sup>2\<close> is 1467.
\<close>

theorem Decrypt_Mul_counterexample:
  "is_prime 29 \<and> is_prime 31
   \<and> GenerateKey (Inr 29) (Inr 31) = Inr key_29_31
   \<and> SetBytes [5] < N1 (PublicKey key_29_31)
   \<and> EncryptWithNonce (PublicKey key_29_31) 0 [5] = Inr 0
   \<and> Mul (PublicKey key_29_31) (Bytes 0) [2] = Inr []
   \<and> Decrypt key_29_31 [] = Inr [15]
   \<and> Bytes ((SetBytes [5] * SetBytes [2]) mod N1 (PublicKey key_29_31)) = [10]
   \<and> EncryptWithNonce (PublicKey key_29_31) 29 [5] = Inr 48778
   \<and> Mul (PublicKey key_29_31) (Bytes 48778) [2] = Inr (Bytes 757741)
   \<and> Decrypt key_29_31 (Bytes 757741) = Inr [2, 25]
   \<and> is_prime 3
   \<and> GenerateKey (Inr 3) (Inr 3) = Inr key_3_3
   \<and> EncryptWithNonce (PublicKey key_3_3) 1 [1] = Inr 10
   \<and> Mul (PublicKey key_3_3) (Bytes 10) [2] = Inr (Bytes 19)
   \<and> Decrypt key_3_3 (Bytes 19) = Inl PanicNilDereference
   \<and> SetBytes [5] < N1 pub_77_100
   \<and> EncryptWithNonce pub_77_100 1 [5] = Inr 86
   \<and> Mul pub_77_100 (Bytes 86) [2] = Inr (Bytes 96)
   \<and> 86 ^ 2 mod (N1 pub_77_100 * N1 pub_77_100) = 1467"
proof -
  have "EncryptWithNonce (PublicKey key_29_31) 0 [5] = Inr 0"
    by (simp add: key_29_31_def EncryptWithNonce_def SetBytes_def Cmp_def Mod_pos Exp_pos)
  moreover have "Mul (PublicKey key_29_31) (Bytes 0) [2] = Inr []"
    by (simp add: Mul_value key_29_31_def SetBytes_Bytes Bytes_small(1) SetBytes_small)
  moreover have "Mul (PublicKey key_29_31) (Bytes 48778) [2] = Inr (Bytes 757741)"
    by (simp add: Mul_value key_29_31_def SetBytes_Bytes SetBytes_small)
  moreover have "Bytes ((SetBytes [5] * SetBytes [2]) mod N1 (PublicKey key_29_31)) = [10]"
    by (simp add: SetBytes_small key_29_31_def Bytes_small)
  moreover have "EncryptWithNonce (PublicKey key_3_3) 1 [1] = Inr 10"
    by (simp add: key_3_3_def EncryptWithNonce_def SetBytes_def Cmp_def Mod_pos Exp_pos)
  moreover have "Mul (PublicKey key_3_3) (Bytes 10) [2] = Inr (Bytes 19)"
    by (simp add: Mul_value key_3_3_def SetBytes_Bytes SetBytes_small)
  moreover have "Decrypt key_3_3 (Bytes 19) = Inl PanicNilDereference"
    by (rule Decrypt_key_3_3_panics) (simp add: SetBytes_Bytes)
  moreover have "SetBytes [5] < N1 (PublicKey key_29_31)"
    by (simp add: SetBytes_def key_29_31_def)
  moreover have "SetBytes [5] < N1 pub_77_100"
    "86 ^ 2 mod (N1 pub_77_100 * N1 pub_77_100) = 1467"
    by (simp_all add: SetBytes_def pub_77_100_def)
  moreover have "Mul pub_77_100 (Bytes 86) [2] = Inr (Bytes 96)"
    by (simp add: Mul_value pub_77_100_def SetBytes_Bytes SetBytes_small)
  moreover note EncryptWithNonce_pub_77_100(1)
  ultimately show ?thesis
    using is_prime_small key_29_31_generated key_3_3_generated Decrypt_key_29_31_zero
      EncryptWithNonce_key_29_31_multiple Decrypt_key_29_31_values(5)
    by simp
qed

subsection \<open>Failure of decryption\<close>

lemma bind_not_too_long:
  assumes "x \<noteq> Inl ErrMessageTooLong" "\<And>v. f v \<noteq> Inl ErrMessageTooLong"
  shows "bind x f \<noteq> Inl ErrMessageTooLong"
  using assms by (cases x) (simp_all add: bind_def)

lemma primitives_not_too_long:
  "Mod x y \<noteq> Inl ErrMessageTooLong" "Div x y \<noteq> Inl ErrMessageTooLong"
  "l u n \<noteq> Inl ErrMessageTooLong" "deref z \<noteq> Inl ErrMessageTooLong"
  by (simp_all add: Mod_def Div_def l_def deref_def split: option.splits)

lemma Decrypt_too_long:
  assumes "NSquared (PublicKey k) \<le> SetBytes ct"
  shows "Decrypt k ct = Inl ErrMessageTooLong"
  using assms by (simp add: Decrypt_def Let_def Cmp_def)

lemma Decrypt_not_too_long:
  assumes "SetBytes ct < NSquared (PublicKey k)"
  shows "Decrypt k ct \<noteq> Inl ErrMessageTooLong"
proof -
  have "crt mp mq k \<noteq> Inl ErrMessageTooLong" for mp mq
    unfolding crt_def by (intro bind_not_too_long primitives_not_too_long)
  then show ?thesis
    using assms unfolding Decrypt_def Let_def Cmp_def
    by (simp del: bind_Inr bind_Inl) (intro bind_not_too_long primitives_not_too_long, simp_all)
qed

lemma Exp_nonneg_exponent: "0 \<le> y \<Longrightarrow> \<exists>v. Exp x y m = Some v"
  by (simp add: Exp_def)

lemma Decrypt_usable_key:
  assumes "P k \<noteq> 0" "Q k \<noteq> 0" "N k \<noteq> 0" "0 \<le> Pminusone k" "0 \<le> Qminusone k"
    and "Hp k \<noteq> None" "Hq k \<noteq> None" "Pinvq k \<noteq> None"
    and "SetBytes ct < NSquared (PublicKey k)"
  shows "\<exists>pt. Decrypt k ct = Inr pt"
proof -
  obtain cp where cp: "Exp (SetBytes ct) (Pminusone k) (PP k) = Some cp"
    using Exp_nonneg_exponent[OF assms(4)] by blast
  obtain cq where cq: "Exp (SetBytes ct) (Qminusone k) (QQ k) = Some cq"
    using Exp_nonneg_exponent[OF assms(5)] by blast
  obtain hp hq pinvq where f: "Hp k = Some hp" "Hq k = Some hq" "Pinvq k = Some pinvq"
    using assms(6,7,8) by auto
  show ?thesis
    using assms(1,2,3,9)
    by (simp add: Decrypt_def Let_def Cmp_def cp cq f l_def Div_def Mod_def crt_def)
qed

text \<open>
  C3 (amended). For a private key whose \<open>NSquared\<close> is the square of the modulus \<open>N1\<close>,
  whose \<open>P\<close>, \<open>Q\<close> and \<open>N\<close> are not zero, whose \<open>Pminusone\<close> and \<open>Qminusone\<close> are not
  negative and whose \<open>Hp\<close>, \<open>Hq\<close> and \<open>Pinvq\<close> are not nil, \<open>Decrypt\<close> reads the
  ciphertext as the big-endian integer \<open>c\<close> (the empty sequence is zero), fails exactly
  when \<open>c \<ge> N1\<^sup>2\<close>, and then with \<open>ErrMessageTooLong\<close>, the value that \<open>EncryptWithNonce\<close>
  returns for a plaintext that is not below the modulus; for every other byte sequence it
  returns a plaintext.
\<close>

theorem Decrypt_failure:
  assumes "NSquared (PublicKey k) = N1 (PublicKey k) * N1 (PublicKey k)"
    and "P k \<noteq> 0" "Q k \<noteq> 0" "N k \<noteq> 0" "0 \<le> Pminusone k" "0 \<le> Qminusone k"
    and "Hp k \<noteq> None" "Hq k \<noteq> None" "Pinvq k \<noteq> None"
  shows "(N1 (PublicKey k) * N1 (PublicKey k) \<le> SetBytes ct
            \<longrightarrow> Decrypt k ct = Inl ErrMessageTooLong)
         \<and> (SetBytes ct < N1 (PublicKey k) * N1 (PublicKey k)
            \<longrightarrow> (\<exists>pt. Decrypt k ct = Inr pt))
         \<and> (N1 pub \<le> SetBytes pt \<longrightarrow> EncryptWithNonce pub r pt = Inl ErrMessageTooLong)
         \<and> SetBytes [] = 0"
  using Decrypt_usable_key[OF assms(2-9), of ct] Decrypt_too_long[of k ct]
    EncryptWithNonce_too_long[of pub pt r]
  by (simp add: SetBytes_def assms(1))

theorem Decrypt_failure_witness:
  "Decrypt key_29_31 (Bytes (899 * 899)) = Inl ErrMessageTooLong
   \<and> (\<exists>pt. Decrypt key_29_31 (Bytes (899 * 899 - 1)) = Inr pt)
   \<and> (\<exists>pt. Decrypt key_29_31 [] = Inr pt)
   \<and> EncryptWithNonce (PublicKey key_29_31) 1 (Bytes 899) = Inl ErrMessageTooLong"
  using Decrypt_failure[of key_29_31 "Bytes (899 * 899)" "PublicKey key_29_31" "Bytes 899" 1]
    Decrypt_failure[of key_29_31 "Bytes (899 * 899 - 1)" "PublicKey key_29_31" "Bytes 899" 1]
    Decrypt_failure[of key_29_31 "[]" "PublicKey key_29_31" "Bytes 899" 1]
  by (simp add: SetBytes_Bytes) (simp add: key_29_31_def SetBytes_def)

text \<open>
  The key for 3 and 3 is returned by \<open>GenerateKey\<close> with nil \<open>Hp\<close>, \<open>Hq\<close> and \<open>Pinvq\<close>;
  on it \<open>Decrypt\<close> panics on the empty ciphertext, which is zero and below \<open>81\<close>. On the
  key for 7 and 11 with \<open>NSquared\<close> set to 100, \<open>Decrypt\<close> answers \<open>ErrMessageTooLong\<close> for
  the ciphertext 100, which is below \<open>77\<^sup>2\<close>.
  On the key for 7 and 11 with \<open>P\<close>, \<open>Q\<close> or \<open>N\<close> set to zero the empty ciphertext
  leads to a division by zero, and with \<open>Pminusone\<close> or \<open>Qminusone\<close> set to \<open>-1\<close> the
  exponentiation of zero returns nil, which is then dereferenced.
\<close>

theorem Decrypt_failure_counterexample:
  "is_prime 3
   \<and> GenerateKey (Inr 3) (Inr 3) = Inr key_3_3
   \<and> SetBytes [] = 0
   \<and> NSquared (PublicKey key_3_3) = 81
   \<and> Decrypt key_3_3 [] = Inl PanicNilDereference
   \<and> SetBytes [100] < N1 pub_77_100 * N1 pub_77_100
   \<and> Decrypt (key_7_11 \<lparr> PublicKey := pub_77_100 \<rparr>) [100] = Inl ErrMessageTooLong
   \<and> Decrypt (key_7_11 \<lparr> P := 0 \<rparr>) [] = Inl PanicDivisionByZero
   \<and> Decrypt (key_7_11 \<lparr> Q := 0 \<rparr>) [] = Inl PanicDivisionByZero
   \<and> Decrypt (key_7_11 \<lparr> N := 0 \<rparr>) [] = Inl PanicDivisionByZero
   \<and> Decrypt (key_7_11 \<lparr> Pminusone := - 1 \<rparr>) [] = Inl PanicNilDereference
   \<and> Decrypt (key_7_11 \<lparr> Qminusone := - 1 \<rparr>) [] = Inl PanicNilDereference"
proof -
  have "SetBytes [100] < N1 pub_77_100 * N1 pub_77_100"
    "Decrypt (key_7_11 \<lparr> PublicKey := pub_77_100 \<rparr>) [100] = Inl ErrMessageTooLong"
    by (simp_all add: pub_77_100_def Decrypt_def Cmp_def SetBytes_def)
  moreover have "Decrypt (key_7_11 \<lparr> P := 0 \<rparr>) [] = Inl PanicDivisionByZero"
    "Decrypt (key_7_11 \<lparr> Q := 0 \<rparr>) [] = Inl PanicDivisionByZero"
    "Decrypt (key_7_11 \<lparr> N := 0 \<rparr>) [] = Inl PanicDivisionByZero"
    "Decrypt (key_7_11 \<lparr> Pminusone := - 1 \<rparr>) [] = Inl PanicNilDereference"
    "Decrypt (key_7_11 \<lparr> Qminusone := - 1 \<rparr>) [] = Inl PanicNilDereference"
    by (simp_all add: key_7_11_def Decrypt_def Cmp_def SetBytes_def Exp_def l_def Div_def
        Mod_def crt_def inverse_mod_def upto.simps)
  ultimately show ?thesis
    using is_prime_small key_3_3_generated Decrypt_key_3_3_panics[of "[]"]
    by (simp add: SetBytes_def key_3_3_def)
qed

subsection \<open>The fields of a generated key; the range of the homomorphic results\<close>

lemma bind_eq_Inr:
  "bind x f = Inr y \<Longrightarrow> \<exists>v. x = Inr v \<and> f v = Inr y"
  by (cases x) (simp_all add: bind_def)

lemma GenerateKey_Inr:
  assumes "GenerateKey prime_p prime_q = Inr k"
  shows "\<exists>p q pinvq hp hq. prime_p = Inr p \<and> prime_q = Inr q
           \<and> ModInverse p q = Inr pinvq
           \<and> k = \<lparr> PublicKey = \<lparr> N1 = p * q, G = p * q + 1, NSquared = (p * q) * (p * q) \<rparr>,
                   P = p, PP = p * p, Pminusone = p - 1,
                   Q = q, QQ = q * q, Qminusone = q - 1,
                   Pinvq = pinvq, Hp = hp, Hq = hq, N = p * q \<rparr>"
proof -
  obtain q where q: "prime_q = Inr q"
    using assms by (cases prime_q) (simp_all add: GenerateKey_def)
  obtain p where p: "prime_p = Inr p"
    using assms q by (cases prime_p) (simp_all add: GenerateKey_def)
  have "bind (ModInverse p q) (\<lambda>pinvq.
          bind (h p (p * p) (p * q)) (\<lambda>hp.
          bind (h q (q * q) (p * q)) (\<lambda>hq.
          Inr \<lparr> PublicKey = \<lparr> N1 = p * q, G = p * q + 1, NSquared = (p * q) * (p * q) \<rparr>,
                P = p, PP = p * p, Pminusone = p - 1,
                Q = q, QQ = q * q, Qminusone = q - 1,
                Pinvq = pinvq, Hp = hp, Hq = hq, N = p * q \<rparr>))) = Inr k"
    using assms by (simp add: GenerateKey_def p q Let_def)
  then obtain pinvq hp hq where "ModInverse p q = Inr pinvq"
    "Inr \<lparr> PublicKey = \<lparr> N1 = p * q, G = p * q + 1, NSquared = (p * q) * (p * q) \<rparr>,
                P = p, PP = p * p, Pminusone = p - 1,
                Q = q, QQ = q * q, Qminusone = q - 1,
                Pinvq = pinvq, Hp = hp, Hq = hq, N = p * q \<rparr> = (Inr k :: failure + PrivateKey)"
    by (blast dest: bind_eq_Inr)
  with p q show ?thesis by auto
qed

text \<open>
  C7 (amended). Every key pair that \<open>GenerateKey\<close> returns has \<open>N1 = P * Q\<close>,
  \<open>NSquared = N1 * N1\<close>, \<open>G = N1 + 1\<close>, \<open>PP = P * P\<close>, \<open>QQ = Q * Q\<close>,
  \<open>Pminusone = P - 1\<close>, \<open>Qminusone = Q - 1\<close> and \<open>N = N1\<close>, where \<open>P\<close> and \<open>Q\<close> are the two
  numbers found by the prime searches. For \<open>Q > 1\<close>, the field \<open>Pinvq\<close> is the inverse of
  \<open>P\<close> modulo \<open>Q\<close>, in \<open>[0, Q)\<close>, when \<open>P\<close> and \<open>Q\<close> are relatively prime, and nil when
  they are not.
\<close>

theorem GenerateKey_fields:
  assumes "GenerateKey prime_p prime_q = Inr k"
  shows "prime_p = Inr (P k) \<and> prime_q = Inr (Q k)
         \<and> N1 (PublicKey k) = P k * Q k
         \<and> NSquared (PublicKey k) = N1 (PublicKey k) * N1 (PublicKey k)
         \<and> G (PublicKey k) = N1 (PublicKey k) + 1
         \<and> PP k = P k * P k \<and> QQ k = Q k * Q k
         \<and> Pminusone k = P k - 1 \<and> Qminusone k = Q k - 1
         \<and> N k = N1 (PublicKey k)
         \<and> (1 < Q k \<and> coprime (P k) (Q k) \<longrightarrow>
              (\<exists>x. Pinvq k = Some x \<and> 0 \<le> x \<and> x < Q k \<and> (P k * x) mod Q k = 1))
         \<and> (1 < Q k \<and> \<not> coprime (P k) (Q k) \<longrightarrow> Pinvq k = None)"
proof -
  obtain p q pinvq hp hq where pq: "prime_p = Inr p" "prime_q = Inr q"
    and inv: "ModInverse p q = Inr pinvq"
    and k: "k = \<lparr> PublicKey = \<lparr> N1 = p * q, G = p * q + 1, NSquared = (p * q) * (p * q) \<rparr>,
                   P = p, PP = p * p, Pminusone = p - 1,
                   Q = q, QQ = q * q, Qminusone = q - 1,
                   Pinvq = pinvq, Hp = hp, Hq = hq, N = p * q \<rparr>"
    using GenerateKey_Inr[OF assms] by blast
  have a: "\<exists>x. pinvq = Some x \<and> 0 \<le> x \<and> x < q \<and> (p * x) mod q = 1"
    if "1 < q" "coprime p q"
    using inverse_mod_Some[OF that] inv that(1) by (simp add: ModInverse_def)
  have b: "pinvq = None" if "1 < q" "\<not> coprime p q"
    using inverse_mod_None[OF that] inv that(1) by (simp add: ModInverse_def)
  show ?thesis using a b by (simp add: k pq)
qed

theorem GenerateKey_fields_witness:
  "N1 (PublicKey key_29_31) = 29 * 31
   \<and> NSquared (PublicKey key_29_31) = 899 * 899
   \<and> G (PublicKey key_29_31) = 900
   \<and> PP key_29_31 = 29 * 29 \<and> QQ key_29_31 = 31 * 31
   \<and> Pminusone key_29_31 = 28 \<and> Qminusone key_29_31 = 30
   \<and> N key_29_31 = 899
   \<and> Pinvq key_29_31 = Some 15 \<and> (29 * 15) mod 31 = (1::int)"
proof -
  have "coprime (29::int) 31" by code_simp
  then show ?thesis
    using GenerateKey_fields[OF key_29_31_generated]
    by (simp add: key_29_31_def)
qed

text \<open>
  For \<open>P = Q = 3\<close> key generation succeeds and leaves \<open>Pinvq\<close> nil.
\<close>

theorem GenerateKey_fields_counterexample:
  "is_prime 3 \<and> GenerateKey (Inr 3) (Inr 3) = Inr key_3_3
   \<and> P key_3_3 = 3 \<and> Q key_3_3 = 3 \<and> Pinvq key_3_3 = None"
  using is_prime_small key_3_3_generated by (simp add: key_3_3_def)

text \<open>
  C9 (amended). For a public key whose modulus is not zero and whose \<open>NSquared\<close> is the
  square of the modulus, and for arbitrary byte sequences, each of \<open>AddCipher\<close>, \<open>Add\<close> and
  \<open>Mul\<close> returns the encoding of an integer below \<open>N\<^sup>2\<close>, and \<open>Decrypt\<close> with a private key
  that holds this public key does not answer \<open>ErrMessageTooLong\<close> on it.
\<close>

theorem homomorphic_results_in_range:
  assumes "N1 pub \<noteq> 0" "NSquared pub = N1 pub * N1 pub" "PublicKey priv = pub"
  shows "(\<exists>z. AddCipher pub a b = Inr z \<and> SetBytes z < NSquared pub
              \<and> Decrypt priv z \<noteq> Inl ErrMessageTooLong)
         \<and> (\<exists>z. Add pub a b = Inr z \<and> SetBytes z < NSquared pub
              \<and> Decrypt priv z \<noteq> Inl ErrMessageTooLong)
         \<and> (\<exists>z. Mul pub a b = Inr z \<and> SetBytes z < NSquared pub
              \<and> Decrypt priv z \<noteq> Inl ErrMessageTooLong)"
proof -
  have nn: "0 < NSquared pub" using assms(1,2) by (auto simp: zero_less_mult_iff)
  have r: "SetBytes (Bytes (x mod NSquared pub)) < NSquared pub
           \<and> Decrypt priv (Bytes (x mod NSquared pub)) \<noteq> Inl ErrMessageTooLong" for x
  proof -
    have "SetBytes (Bytes (x mod NSquared pub)) = x mod NSquared pub"
      using nn by (simp add: SetBytes_Bytes)
    then have "SetBytes (Bytes (x mod NSquared pub)) < NSquared pub" using nn by simp
    then show ?thesis using Decrypt_not_too_long[of _ priv] assms(3) by simp
  qed
  show ?thesis
    by (simp only: AddCipher_value[OF nn] Add_value[OF nn] Mul_value[OF nn]) (simp add: r)
qed

theorem homomorphic_results_in_range_witness:
  "(\<exists>z. AddCipher (PublicKey key_7_11) [255, 255] [255, 255, 255] = Inr z \<and> SetBytes z < 5929
        \<and> Decrypt key_7_11 z \<noteq> Inl ErrMessageTooLong)
   \<and> (\<exists>z. Add (PublicKey key_7_11) [255, 255] [255, 255, 255] = Inr z \<and> SetBytes z < 5929
        \<and> Decrypt key_7_11 z \<noteq> Inl ErrMessageTooLong)
   \<and> (\<exists>z. Mul (PublicKey key_7_11) [255, 255] [255, 255, 255] = Inr z \<and> SetBytes z < 5929
        \<and> Decrypt key_7_11 z \<noteq> Inl ErrMessageTooLong)"
proof -
  have "N1 (PublicKey key_7_11) \<noteq> 0"
    "NSquared (PublicKey key_7_11) = N1 (PublicKey key_7_11) * N1 (PublicKey key_7_11)"
    "NSquared (PublicKey key_7_11) = 5929"
    by (simp_all add: key_7_11_def)
  then show ?thesis
    using homomorphic_results_in_range[of "PublicKey key_7_11" key_7_11 "[255, 255]" "[255, 255, 255]"]
    by simp
qed

text \<open>
  The modulus zero is excluded: with \<open>N1 = 0\<close> and \<open>NSquared = 0\<close> the exponentiation in
  \<open>Mul\<close> is not reduced, its result 2 is not below \<open>NSquared\<close> and \<open>Decrypt\<close> answers
  \<open>ErrMessageTooLong\<close>; \<open>AddCipher\<close> and \<open>Add\<close> panic in the reduction modulo zero.
\<close>

theorem homomorphic_results_in_range_counterexample:
  "NSquared pub_zero = N1 pub_zero * N1 pub_zero
   \<and> Mul pub_zero [2] [1] = Inr [2]
   \<and> \<not> SetBytes [2] < NSquared pub_zero
   \<and> Decrypt (key_7_11 \<lparr> PublicKey := pub_zero \<rparr>) [2] = Inl ErrMessageTooLong
   \<and> AddCipher pub_zero [2] [1] = Inl PanicDivisionByZero
   \<and> Add pub_zero [2] [1] = Inl PanicDivisionByZero"
  by (simp add: pub_zero_def Mul_def AddCipher_def Add_def Decrypt_def Cmp_def SetBytes_def
      Exp_def Mod_def Bytes_def nat_bytes.simps)

subsection \<open>Different nonces give different ciphertexts\<close>

lemma prime_of_bits_not_dvd_pred:
  assumes "prime_of_bits b p" "prime_of_bits b q"
  shows "\<not> p dvd q - 1"
proof
  assume d: "p dvd q - 1"
  have p: "1 < p" "odd p" "2 ^ (b - 1) \<le> p" and q: "1 < q" "odd q" "q < 2 ^ b" and b: "2 \<le> b"
    using assms by (simp_all add: prime_of_bits_def is_prime_def)
  obtain k where k: "q - 1 = p * k" using d by (auto simp: dvd_def)
  have "(2::int) ^ b = 2 * 2 ^ (b - 1)" using b by (cases b) simp_all
  then have "q - 1 < 2 * p" using p(3) q(3) by simp
  then have "p * k < p * 2" using k by simp
  then have "k < 2" using p(1) by (simp add: mult_less_cancel_left_pos)
  moreover have "0 < p * k" using k q(1) by simp
  then have "0 < k" using p(1) by (simp add: zero_less_mult_iff)
  ultimately have "k = 1" by simp
  then have "q = p + 1" using k by simp
  then show False using p(2) q(2) by simp
qed

lemma prime_of_bits_coprime_totient:
  assumes "prime_of_bits b p" "prime_of_bits b q"
  shows "coprime (p * q) ((p - 1) * (q - 1))"
proof -
  have pp: "is_prime p" "1 < p" and qq: "is_prime q" "1 < q"
    using assms by (simp_all add: prime_of_bits_def is_prime_def)
  have "\<not> p dvd p - 1" using pp(2) by (simp add: zdvd_not_zless)
  moreover have "\<not> p dvd q - 1" using assms by (rule prime_of_bits_not_dvd_pred)
  ultimately have "\<not> p dvd (p - 1) * (q - 1)" using is_prime_dvd_mult[OF pp(1)] by blast
  then have 1: "coprime p ((p - 1) * (q - 1))" by (rule is_prime_coprime[OF pp(1)])
  have "\<not> q dvd q - 1" using qq(2) by (simp add: zdvd_not_zless)
  moreover have "\<not> q dvd p - 1" using assms(2,1) by (rule prime_of_bits_not_dvd_pred)
  ultimately have "\<not> q dvd (p - 1) * (q - 1)" using is_prime_dvd_mult[OF qq(1)] by blast
  then have 2: "coprime q ((p - 1) * (q - 1))" by (rule is_prime_coprime[OF qq(1)])
  from 1 2 show ?thesis by simp
qed

lemma is_prime_dvd_power:
  assumes "is_prime p" "p dvd a ^ n"
  shows "p dvd a"
  using assms(2)
proof (induction n)
  case 0
  then show ?case using assms(1) by (simp add: is_prime_def)
next
  case (Suc n)
  then show ?case using is_prime_dvd_mult[OF assms(1), of a "a ^ n"] by auto
qed

lemma square_dvd_power:
  fixes p a :: int
  assumes "p dvd a" "2 \<le> n"
  shows "p * p dvd a ^ n"
proof -
  obtain k where n: "n = Suc (Suc k)" using assms(2) by (metis Suc_le_D numeral_2_eq_2 Suc_le_mono)
  have "p * p dvd a * a" using assms(1) assms(1) by (rule mult_dvd_mono)
  then have "p * p dvd (a * a) * a ^ k" by (rule dvd_mult2)
  moreover have "a ^ n = (a * a) * a ^ k" by (simp add: n)
  ultimately show ?thesis by (simp only:)
qed

lemma power_prime_injective:
  assumes "is_prime p" "coprime (int n) (p - 1)" "0 < n"
    and r1: "\<not> p dvd r1" and r2: "\<not> p dvd r2"
    and eq: "r1 ^ n mod p = r2 ^ n mod p"
  shows "r1 mod p = r2 mod p"
proof -
  have p1: "1 < p" using assms(1) by (simp add: is_prime_def)
  define f where "f = nat (p - 1)"
  have f: "int f = p - 1" using p1 by (simp add: f_def)
  then have "coprime (int n) (int f)" using assms(2) by simp
  then have "coprime n f" by simp
  moreover have "n \<noteq> 0" using assms(3) by simp
  ultimately obtain x y where xy: "n * x = f * y + 1"
    using bezout_nat[of n f] by (auto simp: coprime_iff_gcd_eq_1)
  have red: "r ^ (n * x) mod p = r mod p" if "\<not> p dvd r" for r :: int
  proof -
    have "r ^ (n * x) = (r ^ f) ^ y * r" by (simp only: xy power_add power_mult power_one_right)
    then have "r ^ (n * x) mod p = ((r ^ f mod p) ^ y mod p * (r mod p)) mod p"
      by (simp only: power_mod mod_mult_eq)
    also have "r ^ f mod p = 1"
      unfolding f_def by (rule fermat_little[OF assms(1) that])
    also have "((1::int) ^ y mod p * (r mod p)) mod p = r mod p"
      by (simp add: mod_mult_eq)
    finally show ?thesis .
  qed
  have "r1 ^ (n * x) mod p = (r1 ^ n mod p) ^ x mod p"
    by (simp only: power_mult power_mod)
  also have "\<dots> = (r2 ^ n mod p) ^ x mod p" by (simp only: eq)
  also have "\<dots> = r2 ^ (n * x) mod p" by (simp only: power_mult power_mod)
  finally have "r1 ^ (n * x) mod p = r2 ^ (n * x) mod p" .
  then show ?thesis by (simp only: red[OF r1] red[OF r2])
qed

lemma nonce_power_mod_prime:
  assumes "is_prime p" "coprime (int n) (p - 1)" "2 \<le> n"
    and eq: "r1 ^ n mod (p * p) = r2 ^ n mod (p * p)"
  shows "r1 mod p = r2 mod p"
proof -
  have p1: "1 < p" using assms(1) by (simp add: is_prime_def)
  have both: "p dvd b" if "p dvd a" "a ^ n mod (p * p) = b ^ n mod (p * p)" for a b :: int
  proof -
    have "p * p dvd a ^ n" using that(1) assms(3) by (rule square_dvd_power)
    then have "a ^ n mod (p * p) = 0" by simp
    then have "b ^ n mod (p * p) = 0" using that(2) by simp
    then have "p * p dvd b ^ n" by (simp add: mod_eq_0_iff_dvd)
    then have "p dvd b ^ n" by (rule dvd_mult_left)
    then show ?thesis by (rule is_prime_dvd_power[OF assms(1)])
  qed
  show ?thesis
  proof (cases "p dvd r1")
    case True
    then have "p dvd r2" using eq by (rule both)
    with True show ?thesis by simp
  next
    case False
    have n2: "\<not> p dvd r2"
    proof
      assume "p dvd r2"
      then have "p dvd r1" using eq[symmetric] by (rule both)
      with False show False by simp
    qed
    have d: "p dvd p * p" by simp
    have "r1 ^ n mod p = (r1 ^ n mod (p * p)) mod p" by (simp only: mod_mod_cancel[OF d])
    also have "\<dots> = r2 ^ n mod p" by (simp only: eq mod_mod_cancel[OF d])
    finally have "r1 ^ n mod p = r2 ^ n mod p" .
    moreover have "0 < n" using assms(3) by simp
    ultimately show ?thesis
      using power_prime_injective[OF assms(1,2) _ False n2] by blast
  qed
qed

lemma residue_cancel_plaintext_square:
  fixes n m a b :: int
  assumes "((1 + m * n) * a) mod (n * n) = ((1 + m * n) * b) mod (n * n)"
  shows "a mod (n * n) = b mod (n * n)"
proof -
  have "n * n dvd (1 + m * n) * a - (1 + m * n) * b"
    using assms by (simp add: mod_eq_dvd_iff)
  then have "n * n dvd (1 - m * n) * ((1 + m * n) * a - (1 + m * n) * b)" by simp
  moreover have "(1 - m * n) * ((1 + m * n) * a - (1 + m * n) * b)
       = (a - b) - (n * n) * (m * m * (a - b))"
    by (simp add: algebra_simps)
  ultimately have "n * n dvd (a - b) - (n * n) * (m * m * (a - b))" by simp
  then have "n * n dvd a - b" by (simp add: dvd_diff_left_iff)
  then show ?thesis by (simp add: mod_eq_dvd_iff)
qed

lemma EncryptWithNonce_injective_any_nonce:
  assumes "prime_of_bits b p" "prime_of_bits b q" "p \<noteq> q"
    and key: "GenerateKey (Inr p) (Inr q) = Inr priv"
    and m: "SetBytes pt < N1 (PublicKey priv)"
    and r1: "0 \<le> r1" "r1 < N1 (PublicKey priv)"
    and r2: "0 \<le> r2" "r2 < N1 (PublicKey priv)"
    and eq: "EncryptWithNonce (PublicKey priv) r1 pt = EncryptWithNonce (PublicKey priv) r2 pt"
  shows "r1 = r2"
proof -
  have pr: "is_prime p" "is_prime q" using assms(1,2) by (simp_all add: prime_of_bits_def)
  note pk = GenerateKey_public[OF pr assms(3) key]
  have sq: "NSquared (PublicKey priv) = N1 (PublicKey priv) * N1 (PublicKey priv)"
    by (simp add: pk)
  have cop: "coprime (p * q) ((p - 1) * (q - 1))"
    using assms(1,2) by (rule prime_of_bits_coprime_totient)
  define n where "n = nat (p * q)"
  have pq: "0 < p * q" using pk(4,5) by simp
  have n: "int n = p * q" using pq by (simp add: n_def)
  have "4 \<le> p * q" using pk(4,5) mult_mono[of 2 p 2 q] by simp
  then have n2: "2 \<le> n" by (simp add: n_def)
  have cp: "coprime (int n) (p - 1)" and cq: "coprime (int n) (q - 1)"
    using cop by (simp_all add: n)
  obtain c where c: "EncryptWithNonce (PublicKey priv) r1 pt = Inr c"
    using EncryptWithNonce_in_range[OF sq m] by blast
  then have c': "EncryptWithNonce (PublicKey priv) r2 pt = Inr c" using eq by simp
  have e1: "c mod (p * q * (p * q))
      = ((1 + SetBytes pt * (p * q)) * r1 ^ n) mod (p * q * (p * q))"
    using EncryptWithNonce_residue(3)[OF sq m c] by (simp only: pk n_def)
  have e2: "c mod (p * q * (p * q))
      = ((1 + SetBytes pt * (p * q)) * r2 ^ n) mod (p * q * (p * q))"
    using EncryptWithNonce_residue(3)[OF sq m c'] by (simp only: pk n_def)
  have "((1 + SetBytes pt * (p * q)) * r1 ^ n) mod (p * q * (p * q))
      = ((1 + SetBytes pt * (p * q)) * r2 ^ n) mod (p * q * (p * q))"
    using e1 e2 by (rule trans[OF sym])
  then have sqeq: "r1 ^ n mod (p * q * (p * q)) = r2 ^ n mod (p * q * (p * q))"
    by (rule residue_cancel_plaintext_square)
  have mp: "r1 ^ n mod (p * p) = r2 ^ n mod (p * p)"
    using sqeq by (rule mod_square_factor)
  have "r1 ^ n mod (q * p * (q * p)) = r2 ^ n mod (q * p * (q * p))"
    using sqeq by (simp only: mult.commute[of q p])
  then have mq: "r1 ^ n mod (q * q) = r2 ^ n mod (q * q)"
    by (rule mod_square_factor)
  have "r1 mod p = r2 mod p" using pr(1) cp n2 mp by (rule nonce_power_mod_prime)
  then have dp: "p dvd r1 - r2" by (simp add: mod_eq_dvd_iff)
  have "r1 mod q = r2 mod q" using pr(2) cq n2 mq by (rule nonce_power_mod_prime)
  then have dq: "q dvd r1 - r2" by (simp add: mod_eq_dvd_iff)
  have nqp: "\<not> q dvd p" using pr assms(3) is_prime_distinct_not_dvd by auto
  have "coprime q p" using is_prime_coprime[OF pr(2) nqp] .
  then have "coprime p q" by (simp add: coprime_commute)
  with dp dq have "p * q dvd r1 - r2" by (rule divides_mult)
  then have "r1 mod (p * q) = r2 mod (p * q)" by (simp add: mod_eq_dvd_iff)
  moreover have "r1 mod (p * q) = r1" using r1 unfolding pk by (rule mod_pos_pos_trivial)
  moreover have "r2 mod (p * q) = r2" using r2 unfolding pk by (rule mod_pos_pos_trivial)
  ultimately show ?thesis by (simp only:)
qed

lemma prime_of_bits_29_31: "prime_of_bits 5 29" "prime_of_bits 5 31"
  using is_prime_small by (simp_all add: prime_of_bits_def)

text \<open>
  C8 (amended). For a key pair that \<open>GenerateKey\<close> builds from two distinct odd primes of
  the same bit length (the two results of \<^verbatim>\<open>rand.Prime(random, bits/2)\<close>), a plaintext
  \<open>m < N\<close> and two different nonces in \<open>[0, N)\<close>: both encryptions succeed and the two
  ciphertexts differ; the ciphertext of a nonce that is relatively prime to \<open>N\<close>
  decrypts to \<open>m\<close>.
\<close>

theorem distinct_nonces_distinct_ciphertexts:
  assumes "prime_of_bits b p" "prime_of_bits b q" "p \<noteq> q"
    and "GenerateKey (Inr p) (Inr q) = Inr priv"
    and "SetBytes pt < N1 (PublicKey priv)"
    and "0 \<le> r1" "r1 < N1 (PublicKey priv)"
    and "0 \<le> r2" "r2 < N1 (PublicKey priv)"
    and "r1 \<noteq> r2"
  shows "\<exists>c1 c2. EncryptWithNonce (PublicKey priv) r1 pt = Inr c1
           \<and> EncryptWithNonce (PublicKey priv) r2 pt = Inr c2
           \<and> c1 \<noteq> c2
           \<and> (coprime r1 (N1 (PublicKey priv))
                \<longrightarrow> Decrypt priv (Bytes c1) = Inr (Bytes (SetBytes pt)))
           \<and> (coprime r2 (N1 (PublicKey priv))
                \<longrightarrow> Decrypt priv (Bytes c2) = Inr (Bytes (SetBytes pt)))"
proof -
  have pr: "is_prime p" "is_prime q" using assms(1,2) by (simp_all add: prime_of_bits_def)
  note pk = GenerateKey_public[OF pr assms(3,4)]
  have sq: "NSquared (PublicKey priv) = N1 (PublicKey priv) * N1 (PublicKey priv)"
    by (simp add: pk)
  obtain c1 where c1: "EncryptWithNonce (PublicKey priv) r1 pt = Inr c1"
    using EncryptWithNonce_in_range[OF sq assms(5)] by blast
  obtain c2 where c2: "EncryptWithNonce (PublicKey priv) r2 pt = Inr c2"
    using EncryptWithNonce_in_range[OF sq assms(5)] by blast
  have ne: "c1 \<noteq> c2"
  proof
    assume "c1 = c2"
    then have "EncryptWithNonce (PublicKey priv) r1 pt = EncryptWithNonce (PublicKey priv) r2 pt"
      using c1 c2 by simp
    then have "r1 = r2"
      by (rule EncryptWithNonce_injective_any_nonce[OF assms(1-9)])
    with assms(10) show False by simp
  qed
  have d1: "Decrypt priv (Bytes c1) = Inr (Bytes (SetBytes pt))"
    if "coprime r1 (N1 (PublicKey priv))"
    using EncryptWithNonce_round_trip[OF pr assms(3,4,5) that] c1 by simp
  have d2: "Decrypt priv (Bytes c2) = Inr (Bytes (SetBytes pt))"
    if "coprime r2 (N1 (PublicKey priv))"
    using EncryptWithNonce_round_trip[OF pr assms(3,4,5) that] c2 by simp
  show ?thesis using c1 c2 ne d1 d2 by simp
qed

theorem distinct_nonces_distinct_ciphertexts_witness:
  "\<exists>c1 c2. EncryptWithNonce (PublicKey key_29_31) 2 [5] = Inr c1
      \<and> EncryptWithNonce (PublicKey key_29_31) 3 [5] = Inr c2
      \<and> c1 \<noteq> c2
      \<and> Decrypt key_29_31 (Bytes c1) = Inr [5]
      \<and> Decrypt key_29_31 (Bytes c2) = Inr [5]"
proof -
  have "coprime (2::int) 899" "coprime (3::int) 899" by code_simp+
  then show ?thesis
    using distinct_nonces_distinct_ciphertexts[OF prime_of_bits_29_31 _ key_29_31_generated,
        of "[5]" 2 3]
    by (simp add: key_29_31_def SetBytes_small Bytes_small)
qed

text \<open>
  Without the two conditions the statement fails. On the key for 29 and 31 the nonces 0 and
  29, which are not relatively prime to the modulus, encrypt the plaintext 5 to the
  ciphertexts 0 and 48778, which decrypt to 15 and to 160. On the key for 3 and 3 the nonces
  0 and 3 give the same ciphertext 0, and decryption panics.
\<close>

theorem distinct_nonces_distinct_ciphertexts_counterexample:
  "is_prime 29 \<and> is_prime 31
   \<and> GenerateKey (Inr 29) (Inr 31) = Inr key_29_31
   \<and> SetBytes [5] < N1 (PublicKey key_29_31)
   \<and> EncryptWithNonce (PublicKey key_29_31) 0 [5] = Inr 0
   \<and> EncryptWithNonce (PublicKey key_29_31) 1 [5] = Inr 4496
   \<and> Decrypt key_29_31 (Bytes 0) = Inr [15]
   \<and> Bytes (SetBytes [5]) = [5]
   \<and> EncryptWithNonce (PublicKey key_29_31) 29 [5] = Inr 48778
   \<and> Decrypt key_29_31 (Bytes 48778) = Inr [160]
   \<and> is_prime 3
   \<and> GenerateKey (Inr 3) (Inr 3) = Inr key_3_3
   \<and> SetBytes [1] < N1 (PublicKey key_3_3)
   \<and> (3::int) < N1 (PublicKey key_3_3)
   \<and> EncryptWithNonce (PublicKey key_3_3) 0 [1] = Inr 0
   \<and> EncryptWithNonce (PublicKey key_3_3) 3 [1] = Inr 0
   \<and> Decrypt key_3_3 (Bytes 0) = Inl PanicNilDereference"
proof -
  have "EncryptWithNonce (PublicKey key_29_31) 0 [5] = Inr 0"
    "EncryptWithNonce (PublicKey key_29_31) 1 [5] = Inr 4496"
    by (simp_all add: key_29_31_def EncryptWithNonce_def SetBytes_def Cmp_def Mod_pos Exp_pos)
  moreover have "Bytes (SetBytes [5]) = [5]"
    by (simp add: SetBytes_small Bytes_small)
  moreover have "EncryptWithNonce (PublicKey key_3_3) 0 [1] = Inr 0"
    "EncryptWithNonce (PublicKey key_3_3) 3 [1] = Inr 0"
    by (simp_all add: key_3_3_def EncryptWithNonce_def SetBytes_def Cmp_def Mod_pos Exp_pos)
  moreover have "Decrypt key_3_3 (Bytes 0) = Inl PanicNilDereference"
    by (rule Decrypt_key_3_3_panics) (simp add: SetBytes_Bytes)
  moreover have "SetBytes [5] < N1 (PublicKey key_29_31)" "SetBytes [1] < N1 (PublicKey key_3_3)"
    "(3::int) < N1 (PublicKey key_3_3)"
    by (simp_all add: SetBytes_def key_29_31_def key_3_3_def)
  moreover have "Decrypt key_29_31 (Bytes 0) = Inr [15]"
    using Decrypt_key_29_31_zero by (simp add: Bytes_small)
  ultimately show ?thesis
    using is_prime_small key_29_31_generated key_3_3_generated
      EncryptWithNonce_key_29_31_multiple Decrypt_key_29_31_values(2)
    by simp
qed

end
